theory Spec2Isabelle
  imports Main "HOL-Library.FSet" "HOL-Library.Product_Lexorder"
begin

section \<open>Data model\<close>

text \<open>
  A cell is a pair \<open>(i, j)\<close> of Python integers. Python sets are finite, so they are
  modelled as finite sets; a \<open>Sentence\<close> object is a record, and the list
  \<open>self.knowledge\<close> is a list of such records. Every sentence in that list is an object
  of its own (each is created by a call of the constructor, which copies the cell set),
  so mutating one sentence in place is a pointwise update of the list.
\<close>

type_synonym cell = "int \<times> int"

record sentence =
  cells :: "cell fset"
  count :: int

text \<open>\<open>Sentence.__init__\<close>: the cell set is copied, the count is stored as given.\<close>

definition Sentence :: "cell fset \<Rightarrow> int \<Rightarrow> sentence" where
  "Sentence cs n = \<lparr>cells = cs, count = n\<rparr>"

text \<open>\<open>Sentence.known_mines\<close> and \<open>Sentence.known_safes\<close>.\<close>

definition known_mines :: "sentence \<Rightarrow> cell fset" where
  "known_mines s =
     (if int (fcard (cells s)) = count s \<and> count s \<noteq> 0 then cells s else {||})"

definition known_safes :: "sentence \<Rightarrow> cell fset" where
  "known_safes s = (if count s = 0 then cells s else {||})"

text \<open>\<open>Sentence.mark_mine\<close> and \<open>Sentence.mark_safe\<close>; the in-place mutation returns the
  updated sentence.\<close>

definition sentence_mark_mine :: "cell \<Rightarrow> sentence \<Rightarrow> sentence" where
  "sentence_mark_mine c s =
     (if c |\<in>| cells s then s\<lparr>cells := cells s |-| {|c|}, count := count s - 1\<rparr> else s)"

definition sentence_mark_safe :: "cell \<Rightarrow> sentence \<Rightarrow> sentence" where
  "sentence_mark_safe c s =
     (if c |\<in>| cells s then s\<lparr>cells := cells s |-| {|c|}\<rparr> else s)"

text \<open>The state of a \<open>MinesweeperAI\<close> object.\<close>

record minesweeperAI =
  height :: int
  width :: int
  moves_made :: "cell fset"
  mines :: "cell fset"
  safes :: "cell fset"
  knowledge :: "sentence list"

text \<open>\<open>MinesweeperAI.__init__\<close>.\<close>

definition MinesweeperAI :: "int \<Rightarrow> int \<Rightarrow> minesweeperAI" where
  "MinesweeperAI h w =
     \<lparr>height = h, width = w, moves_made = {||}, mines = {||}, safes = {||}, knowledge = []\<rparr>"

section \<open>Marking cells\<close>

text \<open>\<open>MinesweeperAI.mark_mine\<close> and \<open>MinesweeperAI.mark_safe\<close>: the cell joins the global
  set and every stored sentence is updated.\<close>

definition mark_mine :: "cell \<Rightarrow> minesweeperAI \<Rightarrow> minesweeperAI" where
  "mark_mine c ai =
     ai\<lparr>mines := finsert c (mines ai), knowledge := map (sentence_mark_mine c) (knowledge ai)\<rparr>"

definition mark_safe :: "cell \<Rightarrow> minesweeperAI \<Rightarrow> minesweeperAI" where
  "mark_safe c ai =
     ai\<lparr>safes := finsert c (safes ai), knowledge := map (sentence_mark_safe c) (knowledge ai)\<rparr>"

section \<open>Ingesting an observation\<close>

text \<open>
  Step 2 of \<open>add_knowledge\<close>: the two nested loops over \<open>di\<close> and \<open>dj\<close> visit the nine
  offsets in this order; the body skips \<open>(0, 0)\<close>, tests the bounds, and either
  decrements the local count or adds the neighbour to the local set.
\<close>

definition offsets :: "(int \<times> int) list" where
  "offsets = [(di, dj). di \<leftarrow> [-1, 0, 1], dj \<leftarrow> [-1, 0, 1]]"

definition neighbor_step ::
  "minesweeperAI \<Rightarrow> cell \<Rightarrow> int \<times> int \<Rightarrow> cell fset \<times> int \<Rightarrow> cell fset \<times> int" where
  "neighbor_step ai c d acc =
     (if d = (0, 0) then acc
      else let ni = fst c + fst d; nj = snd c + snd d in
        if 0 \<le> ni \<and> ni < height ai \<and> 0 \<le> nj \<and> nj < width ai then
          (if (ni, nj) |\<in>| mines ai then (fst acc, snd acc - 1)
           else if (ni, nj) |\<notin>| safes ai then (finsert (ni, nj) (fst acc), snd acc)
           else acc)
        else acc)"

definition scan_neighbors :: "minesweeperAI \<Rightarrow> cell \<Rightarrow> int \<Rightarrow> cell fset \<times> int" where
  "scan_neighbors ai c n = fold (neighbor_step ai c) offsets ({||}, n)"

text \<open>Step 1 of \<open>add_knowledge\<close>: the cell is a move made, and it is safe.\<close>

definition record_move :: "cell \<Rightarrow> minesweeperAI \<Rightarrow> minesweeperAI" where
  "record_move c ai = mark_safe c (ai\<lparr>moves_made := finsert c (moves_made ai)\<rparr>)"

text \<open>Step 3: the sentence built from the scan, as it is handed to the membership test.\<close>

definition new_sentence :: "minesweeperAI \<Rightarrow> cell \<Rightarrow> int \<Rightarrow> sentence" where
  "new_sentence ai c n =
     (let (neighbors, n') = scan_neighbors (record_move c ai) c n in Sentence neighbors n')"

text \<open>\<open>if new_sentence not in self.knowledge: self.knowledge.append(new_sentence)\<close>;
  \<open>in\<close> on a list compares with \<open>__eq__\<close>, which is equality of the two fields.\<close>

definition append_if_new :: "sentence \<Rightarrow> sentence list \<Rightarrow> sentence list" where
  "append_if_new s K = (if s \<notin> set K then K @ [s] else K)"

text \<open>Steps 1 to 3 together: the state on which \<open>update_knowledge\<close> is then called.\<close>

definition add_sentence :: "minesweeperAI \<Rightarrow> cell \<Rightarrow> int \<Rightarrow> minesweeperAI" where
  "add_sentence ai c n =
     (let ai1 = record_move c ai
      in ai1\<lparr>knowledge := append_if_new (new_sentence ai c n) (knowledge ai1)\<rparr>)"

section \<open>The fixpoint loop\<close>

text \<open>The first loop of a round gathers the known safes and the known mines of every
  sentence into two local sets.\<close>

definition gather :: "sentence list \<Rightarrow> cell fset \<times> cell fset" where
  "gather K =
     fold (\<lambda>s acc. (fst acc |\<union>| known_safes s, snd acc |\<union>| known_mines s)) K ({||}, {||})"

text \<open>
  \<open>for cell in safes: self.mark_safe(cell)\<close> iterates over a Python set, whose order is
  not specified. The model iterates in sorted order; lemma \<open>fold_mark_safe\<close> below shows
  that the outcome depends on the set of cells only, not on the order.
\<close>

definition mark_safes :: "cell fset \<Rightarrow> minesweeperAI \<Rightarrow> minesweeperAI" where
  "mark_safes S ai = fold mark_safe (sorted_list_of_fset S) ai"

definition mark_mines :: "cell fset \<Rightarrow> minesweeperAI \<Rightarrow> minesweeperAI" where
  "mark_mines S ai = fold mark_mine (sorted_list_of_fset S) ai"

text \<open>
  The body of the two nested loops over \<open>s1\<close> and \<open>s2\<close>. The accumulator is the list
  \<open>new_inferences\<close> together with the flag \<open>updated\<close>; \<open>K\<close> is \<open>self.knowledge\<close>, which
  the loops do not change.
\<close>

definition infer_step ::
  "sentence list \<Rightarrow> sentence \<Rightarrow> sentence \<Rightarrow> sentence list \<times> bool \<Rightarrow> sentence list \<times> bool" where
  "infer_step K s1 s2 acc =
     (if s1 = s2 \<or> cells s1 = {||} \<or> cells s2 = {||} then acc
      else if cells s1 |\<subseteq>| cells s2 then
        (let diff = Sentence (cells s2 |-| cells s1) (count s2 - count s1)
         in if diff \<notin> set K \<and> diff \<notin> set (fst acc) then (fst acc @ [diff], True) else acc)
      else acc)"

definition subset_inference :: "sentence list \<Rightarrow> bool \<Rightarrow> sentence list \<times> bool" where
  "subset_inference K updated =
     fold (\<lambda>s1 acc. fold (\<lambda>s2 acc'. infer_step K s1 s2 acc') K acc) K ([], updated)"

text \<open>One execution of the body of \<open>while updated\<close>: it returns the flag \<open>updated\<close> as it
  stands at the end of the body, and the new state.\<close>

definition update_round :: "minesweeperAI \<Rightarrow> bool \<times> minesweeperAI" where
  "update_round ai =
     (let (sf, mn) = gather (knowledge ai);
          ai1 = (if sf \<noteq> {||} then mark_safes sf ai else ai);
          ai2 = (if mn \<noteq> {||} then mark_mines mn ai1 else ai1);
          (new_inferences, updated) =
             subset_inference (knowledge ai2) (sf \<noteq> {||} \<or> mn \<noteq> {||})
      in (updated,
          ai2\<lparr>knowledge := filter (\<lambda>s. cells s \<noteq> {||}) (knowledge ai2 @ new_inferences)\<rparr>))"

text \<open>\<open>update_knowledge\<close>: the flag starts as \<open>True\<close>, so the body runs at least once and
  is repeated as long as it sets the flag. The loop need not terminate; \<open>None\<close> stands for
  a call that never returns.\<close>

partial_function (option) update_knowledge :: "minesweeperAI \<Rightarrow> minesweeperAI option" where
  "update_knowledge ai =
     (case update_round ai of (updated, ai') \<Rightarrow>
        if updated then update_knowledge ai' else Some ai')"

declare update_knowledge.simps [code]

text \<open>\<open>add_knowledge\<close>.\<close>

definition add_knowledge :: "minesweeperAI \<Rightarrow> cell \<Rightarrow> int \<Rightarrow> minesweeperAI option" where
  "add_knowledge ai c n = update_knowledge (add_sentence ai c n)"

section \<open>Choosing a move\<close>

text \<open>
  \<open>make_safe_move\<close> iterates over the Python set \<open>self.safes\<close>, in an order that the
  language does not specify: the order is a parameter, a list enumerating \<open>safes\<close>. The
  method assigns to no attribute; the model returns the state next to the result so that
  this can be stated.
\<close>

fun first_unmade :: "cell fset \<Rightarrow> cell list \<Rightarrow> cell option" where
  "first_unmade made [] = None"
| "first_unmade made (move # rest) =
     (if move |\<notin>| made then Some move else first_unmade made rest)"

definition make_safe_move :: "cell list \<Rightarrow> minesweeperAI \<Rightarrow> cell option \<times> minesweeperAI" where
  "make_safe_move order ai = (first_unmade (moves_made ai) order, ai)"

text \<open>The list comprehension of \<open>make_random_move\<close>; \<open>range(n)\<close> is \<open>[0..n - 1]\<close>, empty
  when \<open>n \<le> 0\<close>.\<close>

definition choices :: "minesweeperAI \<Rightarrow> cell list" where
  "choices ai =
     [(i, j). i \<leftarrow> [0..height ai - 1], j \<leftarrow> [0..width ai - 1],
              (i, j) |\<notin>| moves_made ai \<and> (i, j) |\<notin>| mines ai]"

text \<open>\<open>random.choice(seq)\<close> returns \<open>seq[k]\<close> for an index \<open>k\<close> below \<open>len(seq)\<close> drawn by
  the generator; the draw is the parameter \<open>r\<close>, reduced into the range of indices.\<close>

definition random_choice :: "nat \<Rightarrow> 'a list \<Rightarrow> 'a" where
  "random_choice r xs = xs ! (r mod length xs)"

definition make_random_move :: "nat \<Rightarrow> minesweeperAI \<Rightarrow> cell option \<times> minesweeperAI" where
  "make_random_move r ai =
     (if choices ai \<noteq> [] then Some (random_choice r (choices ai)) else None, ai)"

section \<open>The board\<close>

text \<open>
  The part of class \<open>Minesweeper\<close> that an observation comes from: the dimensions and the
  matrix \<open>board\<close> of booleans, \<open>is_mine\<close> and \<open>nearby_mines\<close>. The constructor builds
  \<open>height\<close> rows of \<open>width\<close> entries (\<open>wf_board\<close>); both methods are modelled on cells
  inside the board, where every index is in range.
\<close>

record minesweeper =
  board_height :: int
  board_width :: int
  board :: "bool list list"

definition wf_board :: "minesweeper \<Rightarrow> bool" where
  "wf_board g =
     (0 \<le> board_height g \<and> 0 \<le> board_width g \<and>
      length (board g) = nat (board_height g) \<and>
      list_all (\<lambda>row. length row = nat (board_width g)) (board g))"

definition is_mine :: "minesweeper \<Rightarrow> cell \<Rightarrow> bool" where
  "is_mine g c = board g ! nat (fst c) ! nat (snd c)"

definition nearby_step :: "minesweeper \<Rightarrow> cell \<Rightarrow> cell \<Rightarrow> int \<Rightarrow> int" where
  "nearby_step g c p n =
     (if p = c then n
      else if 0 \<le> fst p \<and> fst p < board_height g \<and> 0 \<le> snd p \<and> snd p < board_width g then
        (if board g ! nat (fst p) ! nat (snd p) then n + 1 else n)
      else n)"

definition nearby_mines :: "minesweeper \<Rightarrow> cell \<Rightarrow> int" where
  "nearby_mines g c =
     fold (nearby_step g c)
       [(i, j). i \<leftarrow> [fst c - 1..fst c + 1], j \<leftarrow> [snd c - 1..snd c + 1]] 0"

section \<open>Notions used in the statements\<close>

definition in_bounds :: "int \<Rightarrow> int \<Rightarrow> cell \<Rightarrow> bool" where
  "in_bounds h w c = (0 \<le> fst c \<and> fst c < h \<and> 0 \<le> snd c \<and> snd c < w)"

text \<open>The in-bounds 8-neighbours of a cell, as the specification words them: the cells
  of the grid other than the cell itself, at most one row and one column away.\<close>

definition all_cells :: "int \<Rightarrow> int \<Rightarrow> cell fset" where
  "all_cells h w = fset_of_list [(i, j). i \<leftarrow> [0..h - 1], j \<leftarrow> [0..w - 1]]"

definition neighbors8 :: "int \<Rightarrow> int \<Rightarrow> cell \<Rightarrow> cell fset" where
  "neighbors8 h w c =
     ffilter (\<lambda>p. p \<noteq> c \<and> \<bar>fst p - fst c\<bar> \<le> 1 \<and> \<bar>snd p - snd c\<bar> \<le> 1) (all_cells h w)"

text \<open>The cells of the board that hold a mine.\<close>

definition board_mines :: "minesweeper \<Rightarrow> cell fset" where
  "board_mines g = ffilter (is_mine g) (all_cells (board_height g) (board_width g))"

text \<open>
  A knowledge base is consistent with a set \<open>B\<close> of mined cells when every stored
  sentence counts the mines among its cells, no cell of \<open>safes\<close> is mined and every
  cell of \<open>mines\<close> is.
\<close>

definition true_in :: "cell fset \<Rightarrow> sentence \<Rightarrow> bool" where
  "true_in B s = (count s = int (fcard (cells s |\<inter>| B)))"

definition consistent :: "cell fset \<Rightarrow> minesweeperAI \<Rightarrow> bool" where
  "consistent B ai =
     (list_all (true_in B) (knowledge ai) \<and> safes ai |\<inter>| B = {||} \<and> mines ai |\<subseteq>| B)"

text \<open>The driver's contract for one probe: a cell of the board that is not a mine. The
  count it reports is \<open>nearby_mines\<close> of that cell.\<close>

definition legal_probe :: "minesweeper \<Rightarrow> cell \<Rightarrow> bool" where
  "legal_probe g c = (in_bounds (board_height g) (board_width g) c \<and> \<not> is_mine g c)"

text \<open>A sequence of observations on a board, each reporting the board's own count.\<close>

fun observe_all :: "minesweeper \<Rightarrow> cell list \<Rightarrow> minesweeperAI \<Rightarrow> minesweeperAI option" where
  "observe_all g [] ai = Some ai"
| "observe_all g (c # cs) ai =
     (case add_knowledge ai c (nearby_mines g c) of
        None \<Rightarrow> None
      | Some ai' \<Rightarrow> observe_all g cs ai')"

text \<open>The pairs of sentences that the subset rule applies to, and what it derives.\<close>

definition eligible :: "sentence \<Rightarrow> sentence \<Rightarrow> bool" where
  "eligible s1 s2 =
     (s1 \<noteq> s2 \<and> cells s1 \<noteq> {||} \<and> cells s2 \<noteq> {||} \<and> cells s1 |\<subseteq>| cells s2)"

definition difference :: "sentence \<Rightarrow> sentence \<Rightarrow> sentence" where
  "difference s1 s2 = \<lparr>cells = cells s2 |-| cells s1, count = count s2 - count s1\<rparr>"

text \<open>A sentence whose count no set of mines among its cells can have.\<close>

definition out_of_range :: "sentence \<Rightarrow> bool" where
  "out_of_range s = (count s < 0 \<or> int (fcard (cells s)) < count s)"

text \<open>No two stored sentences have the same cells and different counts.\<close>

definition cells_fix_count :: "sentence list \<Rightarrow> bool" where
  "cells_fix_count K =
     list_all (\<lambda>s. list_all (\<lambda>t. cells s = cells t \<longrightarrow> count s = count t) K) K"

section \<open>Notions used in the proofs\<close>

text \<open>What the two marking loops of a round do to one sentence: the gathered safes and
  then the gathered mines are removed, and the count drops by the mines removed.\<close>

definition strip :: "cell fset \<Rightarrow> cell fset \<Rightarrow> sentence \<Rightarrow> sentence" where
  "strip S M s =
     \<lparr>cells = cells s |-| S |-| M, count = count s - int (fcard ((cells s |-| S) |\<inter>| M))\<rparr>"

text \<open>The sentences that the subset rule derives from a list of pairs.\<close>

definition candidates :: "(sentence \<times> sentence) list \<Rightarrow> sentence set" where
  "candidates ps = {difference s1 s2 |s1 s2. (s1, s2) \<in> set ps \<and> eligible s1 s2}"

text \<open>The measure of the loop: the cells that still occur in a sentence, and the
  subsets of them that are not yet the cell set of a stored sentence.\<close>

definition open_cells :: "sentence list \<Rightarrow> cell set" where
  "open_cells K = (\<Union>s\<in>set K. fset (cells s))"

definition cell_sets :: "sentence list \<Rightarrow> cell set set" where
  "cell_sets K = {fset (cells s) |s. s \<in> set K \<and> cells s \<noteq> {||}}"

definition progress :: "sentence list \<Rightarrow> nat \<times> nat" where
  "progress K = (card (open_cells K), card (Pow (open_cells K) - cell_sets K))"

text \<open>What is left of a sentence while the rounds go on: a sentence still out of range,
  over some of the same cells, all other cells of the original being marked, and itself
  stored unless it has no cell left.\<close>

definition remnant :: "sentence \<Rightarrow> minesweeperAI \<Rightarrow> sentence \<Rightarrow> bool" where
  "remnant s a s' =
     (out_of_range s' \<and> cells s' |\<subseteq>| cells s \<and> cells s |\<subseteq>| cells s' |\<union>| safes a |\<union>| mines a \<and>
      (s' \<in> set (knowledge a) \<or> cells s' = {||}))"

text \<open>The eight cells around a cell, in the order in which the scan visits them.\<close>

definition around :: "cell \<Rightarrow> cell list" where
  "around c = [(fst c + di, snd c + dj). (di, dj) \<leftarrow> offsets, (di, dj) \<noteq> (0, 0)]"

text \<open>The cells that a random move is drawn from.\<close>

definition candidate_moves :: "minesweeperAI \<Rightarrow> cell fset" where
  "candidate_moves ai = all_cells (height ai) (width ai) |-| moves_made ai |-| mines ai"

section \<open>Example states\<close>

text \<open>A 6 by 6 grid on which every cell but \<open>(5, 5)\<close> has been probed.\<close>

definition one_left :: minesweeperAI where
  "one_left =
     \<lparr>height = 6, width = 6, moves_made = all_cells 6 6 |-| {|(5, 5)|}, mines = {||},
      safes = all_cells 6 6 |-| {|(5, 5)|}, knowledge = []\<rparr>"

text \<open>A state that holds the two sentences of the subset scenario.\<close>

definition three_two :: minesweeperAI where
  "three_two =
     \<lparr>height = 1, width = 3, moves_made = {||}, mines = {||}, safes = {||},
      knowledge = [\<lparr>cells = {|(0, 0), (0, 1), (0, 2)|}, count = 2\<rparr>,
                   \<lparr>cells = {|(0, 0), (0, 1)|}, count = 1\<rparr>]\<rparr>"

text \<open>States of the direct-rule examples.\<close>

definition two_seen :: minesweeperAI where
  "two_seen =
     \<lparr>height = 2, width = 2, moves_made = {|(0, 0), (0, 1)|}, mines = {||},
      safes = {|(0, 0), (0, 1)|}, knowledge = [\<lparr>cells = {|(1, 0), (1, 1)|}, count = 1\<rparr>]\<rparr>"

definition contradictory :: minesweeperAI where
  "contradictory =
     \<lparr>height = 2, width = 2, moves_made = {|(0, 0), (0, 1), (1, 0)|}, mines = {||},
      safes = {|(0, 0), (0, 1), (1, 0)|},
      knowledge = [\<lparr>cells = {|(1, 1)|}, count = 1\<rparr>, \<lparr>cells = {|(1, 1)|}, count = 0\<rparr>]\<rparr>"

definition both_marked :: minesweeperAI where
  "both_marked =
     \<lparr>height = 2, width = 2, moves_made = {|(0, 0), (0, 1), (1, 0)|}, mines = {|(1, 1)|},
      safes = {|(0, 0), (0, 1), (1, 0), (1, 1)|}, knowledge = []\<rparr>"

definition pending :: minesweeperAI where
  "pending =
     \<lparr>height = 2, width = 3, moves_made = {|(0, 1), (0, 0)|}, mines = {||},
      safes = {|(0, 1), (0, 0)|},
      knowledge = [\<lparr>cells = {|(0, 2), (1, 2)|}, count = 0\<rparr>, \<lparr>cells = {|(1, 0)|}, count = 1\<rparr>,
                   \<lparr>cells = {|(1, 0), (1, 1), (1, 2)|}, count = 1\<rparr>]\<rparr>"

text \<open>States left by an observation whose count is out of range.\<close>

definition overcounted :: minesweeperAI where
  "overcounted =
     \<lparr>height = 1, width = 2, moves_made = {|(0, 0)|}, mines = {||}, safes = {|(0, 0)|},
      knowledge = [\<lparr>cells = {|(0, 1)|}, count = 5\<rparr>]\<rparr>"

definition undercounted :: minesweeperAI where
  "undercounted =
     \<lparr>height = 1, width = 2, moves_made = {|(0, 0)|}, mines = {||}, safes = {|(0, 0)|},
      knowledge = [\<lparr>cells = {|(0, 1)|}, count = - 1\<rparr>]\<rparr>"

text \<open>Two observations on a 1 by 3 grid that contradict each other.\<close>

definition clashing_before :: minesweeperAI where
  "clashing_before =
     \<lparr>height = 1, width = 3, moves_made = {|(0, 0)|}, mines = {||}, safes = {|(0, 0)|},
      knowledge = [\<lparr>cells = {|(0, 1)|}, count = 3\<rparr>]\<rparr>"

definition clashing :: minesweeperAI where
  "clashing =
     \<lparr>height = 1, width = 3, moves_made = {|(0, 0), (0, 2)|}, mines = {||},
      safes = {|(0, 0), (0, 2)|},
      knowledge = [\<lparr>cells = {|(0, 1)|}, count = 3\<rparr>, \<lparr>cells = {|(0, 1)|}, count = 5\<rparr>]\<rparr>"

text \<open>A board with one mine, and the state that two probes of it leave.\<close>

definition one_mine_board :: minesweeper where
  "one_mine_board =
     \<lparr>board_height = 2, board_width = 3,
      board = [[False, False, False], [True, False, False]]\<rparr>"

definition twin_sentences :: minesweeperAI where
  "twin_sentences =
     \<lparr>height = 2, width = 3, moves_made = {|(0, 1), (0, 0)|}, mines = {||},
      safes = {|(0, 1), (0, 0), (0, 2), (1, 2)|},
      knowledge = [\<lparr>cells = {|(1, 0), (1, 1)|}, count = 1\<rparr>,
                   \<lparr>cells = {|(1, 0), (1, 1)|}, count = 1\<rparr>]\<rparr>"

text \<open>States of the second-call examples.\<close>

definition first_seen :: minesweeperAI where
  "first_seen =
     \<lparr>height = 1, width = 4, moves_made = {|(0, 1)|}, mines = {||}, safes = {|(0, 1)|},
      knowledge = [\<lparr>cells = {|(0, 0), (0, 2)|}, count = 3\<rparr>]\<rparr>"

definition second_seen :: minesweeperAI where
  "second_seen =
     \<lparr>height = 1, width = 4, moves_made = {|(0, 1), (0, 3)|}, mines = {||},
      safes = {|(0, 1), (0, 3)|},
      knowledge = [\<lparr>cells = {|(0, 0), (0, 2)|}, count = 3\<rparr>, \<lparr>cells = {|(0, 2)|}, count = 5\<rparr>,
                   \<lparr>cells = {|(0, 0)|}, count = - 2\<rparr>]\<rparr>"

definition stuck :: minesweeperAI where
  "stuck =
     \<lparr>height = 1, width = 4, moves_made = {|(0, 1), (0, 3), (0, 0)|}, mines = {||},
      safes = {|(0, 1), (0, 3), (0, 0)|},
      knowledge = [\<lparr>cells = {|(0, 2)|}, count = 3\<rparr>, \<lparr>cells = {|(0, 2)|}, count = 5\<rparr>]\<rparr>"

definition settled :: minesweeperAI where
  "settled =
     \<lparr>height = 2, width = 3, moves_made = {|(0, 1), (0, 0)|}, mines = {||},
      safes = {|(0, 1), (0, 0), (0, 2), (1, 2)|},
      knowledge = [\<lparr>cells = {|(1, 0), (1, 1)|}, count = 1\<rparr>,
                   \<lparr>cells = {|(1, 0), (1, 1)|}, count = 1\<rparr>]\<rparr>"

section \<open>Marking a set of cells\<close>

lemma fold_mark_safe:
  "fold mark_safe xs ai =
     ai\<lparr>safes := safes ai |\<union>| fset_of_list xs,
        knowledge := map (\<lambda>s. s\<lparr>cells := cells s |-| fset_of_list xs\<rparr>) (knowledge ai)\<rparr>"
proof (induction xs arbitrary: ai)
  case Nil
  show ?case by simp
next
  case (Cons x xs)
  have d: "\<And>A X. A |-| {|x|} |-| X = A |-| finsert x X" by auto
  have "\<And>s. (sentence_mark_safe x s)\<lparr>cells := cells (sentence_mark_safe x s) |-| fset_of_list xs\<rparr>
    = s\<lparr>cells := cells s |-| finsert x (fset_of_list xs)\<rparr>"
    by (simp add: sentence_mark_safe_def d)
  then have "(mark_safe x ai)\<lparr>safes := safes (mark_safe x ai) |\<union>| fset_of_list xs,
        knowledge := map (\<lambda>s. s\<lparr>cells := cells s |-| fset_of_list xs\<rparr>) (knowledge (mark_safe x ai))\<rparr>
      = ai\<lparr>safes := safes ai |\<union>| fset_of_list (x # xs),
        knowledge := map (\<lambda>s. s\<lparr>cells := cells s |-| fset_of_list (x # xs)\<rparr>) (knowledge ai)\<rparr>"
    by (simp add: mark_safe_def comp_def)
  moreover have "fold mark_safe (x # xs) ai = fold mark_safe xs (mark_safe x ai)" by simp
  ultimately show ?case using Cons.IH [of "mark_safe x ai"] by simp
qed

lemma fcard_inter_finsert:
  "fcard (A |\<inter>| finsert x M) = (if x |\<in>| A then 1 else 0) + fcard ((A |-| {|x|}) |\<inter>| M)"
proof (cases "x |\<in>| A")
  case True
  have "A |\<inter>| finsert x M = finsert x ((A |-| {|x|}) |\<inter>| M)"
    using True by auto
  moreover have "x |\<notin>| (A |-| {|x|}) |\<inter>| M" by simp
  ultimately show ?thesis using True by (simp add: fcard_finsert_disjoint)
next
  case False
  then have "A |\<inter>| finsert x M = (A |-| {|x|}) |\<inter>| M" by auto
  then show ?thesis using False by simp
qed

lemma fold_mark_mine:
  "fold mark_mine xs ai =
     ai\<lparr>mines := mines ai |\<union>| fset_of_list xs,
        knowledge := map (\<lambda>s. s\<lparr>cells := cells s |-| fset_of_list xs,
                                 count := count s - int (fcard (cells s |\<inter>| fset_of_list xs))\<rparr>)
                        (knowledge ai)\<rparr>"
proof (induction xs arbitrary: ai)
  case Nil
  show ?case by (simp add: fcard_fempty)
next
  case (Cons x xs)
  have d: "\<And>A X. A |-| {|x|} |-| X = A |-| finsert x X" by auto
  have "\<And>s. (sentence_mark_mine x s)\<lparr>cells := cells (sentence_mark_mine x s) |-| fset_of_list xs,
      count := count (sentence_mark_mine x s) - int (fcard (cells (sentence_mark_mine x s) |\<inter>| fset_of_list xs))\<rparr>
    = s\<lparr>cells := cells s |-| finsert x (fset_of_list xs),
         count := count s - int (fcard (cells s |\<inter>| finsert x (fset_of_list xs)))\<rparr>"
    by (simp add: sentence_mark_mine_def fcard_inter_finsert d)
  then have "(mark_mine x ai)\<lparr>mines := mines (mark_mine x ai) |\<union>| fset_of_list xs,
        knowledge := map (\<lambda>s. s\<lparr>cells := cells s |-| fset_of_list xs,
                                 count := count s - int (fcard (cells s |\<inter>| fset_of_list xs))\<rparr>)
                        (knowledge (mark_mine x ai))\<rparr>
      = ai\<lparr>mines := mines ai |\<union>| fset_of_list (x # xs),
        knowledge := map (\<lambda>s. s\<lparr>cells := cells s |-| fset_of_list (x # xs),
                                 count := count s - int (fcard (cells s |\<inter>| fset_of_list (x # xs)))\<rparr>)
                        (knowledge ai)\<rparr>"
    by (simp add: mark_mine_def comp_def)
  moreover have "fold mark_mine (x # xs) ai = fold mark_mine xs (mark_mine x ai)" by simp
  ultimately show ?case using Cons.IH [of "mark_mine x ai"] by simp
qed

lemma mark_safes_eq:
  "mark_safes S ai =
     ai\<lparr>safes := safes ai |\<union>| S, knowledge := map (\<lambda>s. s\<lparr>cells := cells s |-| S\<rparr>) (knowledge ai)\<rparr>"
  by (simp add: mark_safes_def fold_mark_safe)

lemma mark_mines_eq:
  "mark_mines M ai =
     ai\<lparr>mines := mines ai |\<union>| M,
        knowledge := map (\<lambda>s. s\<lparr>cells := cells s |-| M,
                                 count := count s - int (fcard (cells s |\<inter>| M))\<rparr>) (knowledge ai)\<rparr>"
  by (simp add: mark_mines_def fold_mark_mine)

lemma gather_fold:
  "fold (\<lambda>s acc. (fst acc |\<union>| known_safes s, snd acc |\<union>| known_mines s)) K (A, B) =
     (A |\<union>| ffUnion (fset_of_list (map known_safes K)), B |\<union>| ffUnion (fset_of_list (map known_mines K)))"
  by (induction K arbitrary: A B) auto

lemma gather_eq:
  "gather K = (ffUnion (fset_of_list (map known_safes K)), ffUnion (fset_of_list (map known_mines K)))"
  by (simp add: gather_def gather_fold)

section \<open>The subset rule and the closed form of a round\<close>

lemma infer_step_eq:
  "infer_step K s1 s2 acc =
     (if eligible s1 s2 \<and> difference s1 s2 \<notin> set K \<and> difference s1 s2 \<notin> set (fst acc)
      then (fst acc @ [difference s1 s2], True) else acc)"
  by (simp add: infer_step_def eligible_def difference_def Sentence_def Let_def)

lemma fold_product:
  "fold (\<lambda>x acc. fold (\<lambda>y acc'. f x y acc') ys acc) xs a =
     fold (\<lambda>p acc. f (fst p) (snd p) acc) (List.product xs ys) a"
proof (induction xs arbitrary: a)
  case Nil
  show ?case by simp
next
  case (Cons x xs)
  have "fold (\<lambda>p acc. f (fst p) (snd p) acc) (map (Pair x) ys) a = fold (\<lambda>y acc'. f x y acc') ys a"
    by (simp add: fold_map comp_def)
  then show ?case by (simp add: Cons.IH)
qed

lemma subset_inference_product:
  "subset_inference K u = fold (\<lambda>p acc. infer_step K (fst p) (snd p) acc) (List.product K K) ([], u)"
  by (simp add: subset_inference_def fold_product)

lemma candidates_Nil [simp]: "candidates [] = {}"
  by (simp add: candidates_def)

lemma candidates_Cons:
  "candidates (p # ps) = (if eligible (fst p) (snd p) then {difference (fst p) (snd p)} else {}) \<union> candidates ps"
  by (cases p) (auto simp: candidates_def)

lemma infer_fold_set:
  "set (fst (fold (\<lambda>p acc. infer_step K (fst p) (snd p) acc) ps acc)) =
     set (fst acc) \<union> (candidates ps - set K)"
proof (induction ps arbitrary: acc)
  case Nil
  show ?case by simp
next
  case (Cons p ps)
  define acc' where "acc' = infer_step K (fst p) (snd p) acc"
  have "set (fst acc') \<union> (candidates ps - set K) = set (fst acc) \<union> (candidates (p # ps) - set K)"
    unfolding acc'_def infer_step_eq candidates_Cons by auto
  then show ?case
    using Cons.IH [of acc'] by (simp add: acc'_def)
qed

lemma infer_fold_flag:
  "snd (fold (\<lambda>p acc. infer_step K (fst p) (snd p) acc) ps acc) =
     (snd acc \<or> \<not> candidates ps \<subseteq> set K \<union> set (fst acc))"
proof (induction ps arbitrary: acc)
  case Nil
  show ?case by simp
next
  case (Cons p ps)
  define acc' where "acc' = infer_step K (fst p) (snd p) acc"
  have "(snd acc' \<or> \<not> candidates ps \<subseteq> set K \<union> set (fst acc')) =
        (snd acc \<or> \<not> candidates (p # ps) \<subseteq> set K \<union> set (fst acc))"
    unfolding acc'_def infer_step_eq candidates_Cons by auto
  then show ?case
    using Cons.IH [of acc'] by (simp add: acc'_def)
qed

lemma infer_fold_distinct:
  "distinct (fst acc) \<Longrightarrow> distinct (fst (fold (\<lambda>p acc. infer_step K (fst p) (snd p) acc) ps acc))"
proof (induction ps arbitrary: acc)
  case Nil
  then show ?case by simp
next
  case (Cons p ps)
  define acc' where "acc' = infer_step K (fst p) (snd p) acc"
  have "distinct (fst acc')"
    unfolding acc'_def infer_step_eq using Cons.prems by simp
  then show ?case using Cons.IH [of acc'] by (simp add: acc'_def)
qed

lemma subset_inference_set:
  "set (fst (subset_inference K u)) = candidates (List.product K K) - set K"
  by (simp add: subset_inference_product infer_fold_set)

lemma subset_inference_flag:
  "snd (subset_inference K u) = (u \<or> \<not> candidates (List.product K K) \<subseteq> set K)"
  by (simp add: subset_inference_product infer_fold_flag)

lemma subset_inference_distinct: "distinct (fst (subset_inference K u))"
  by (simp add: subset_inference_product infer_fold_distinct)

lemma candidates_product:
  "candidates (List.product K K) = {difference s1 s2 |s1 s2. s1 \<in> set K \<and> s2 \<in> set K \<and> eligible s1 s2}"
  by (auto simp: candidates_def)

lemma strip_empty: "map (\<lambda>s. s\<lparr>cells := cells s |-| {||}\<rparr>) K = K"
  by (induction K) auto

lemma update_round_eq:
  "update_round ai =
     (let sf = ffUnion (fset_of_list (map known_safes (knowledge ai)));
          mn = ffUnion (fset_of_list (map known_mines (knowledge ai)));
          K2 = map (strip sf mn) (knowledge ai)
      in (sf \<noteq> {||} \<or> mn \<noteq> {||} \<or> \<not> candidates (List.product K2 K2) \<subseteq> set K2,
          ai\<lparr>safes := safes ai |\<union>| sf, mines := mines ai |\<union>| mn,
             knowledge := filter (\<lambda>s. cells s \<noteq> {||}) (K2 @ fst (subset_inference K2 (sf \<noteq> {||} \<or> mn \<noteq> {||})))\<rparr>))"
proof -
  define sf where "sf = ffUnion (fset_of_list (map known_safes (knowledge ai)))"
  define mn where "mn = ffUnion (fset_of_list (map known_mines (knowledge ai)))"
  define ai1 where "ai1 = (if sf \<noteq> {||} then mark_safes sf ai else ai)"
  define ai2 where "ai2 = (if mn \<noteq> {||} then mark_mines mn ai1 else ai1)"
  have a1: "ai1 = mark_safes sf ai"
    by (cases "sf = {||}") (simp_all add: ai1_def mark_safes_eq strip_empty)
  have "mark_mines {||} ai1 = ai1"
    by (simp add: mark_mines_eq fcard_fempty map_idI)
  then have a2: "ai2 = mark_mines mn ai1"
    by (cases "mn = {||}") (simp_all add: ai2_def)
  have k2: "knowledge ai2 = map (strip sf mn) (knowledge ai)"
    by (simp add: a1 a2 mark_mines_eq mark_safes_eq strip_def comp_def)
  have s2: "ai2 = ai\<lparr>safes := safes ai |\<union>| sf, mines := mines ai |\<union>| mn, knowledge := map (strip sf mn) (knowledge ai)\<rparr>"
    by (simp add: a1 a2 mark_mines_eq mark_safes_eq strip_def comp_def)
  have "update_round ai =
     (case subset_inference (knowledge ai2) (sf \<noteq> {||} \<or> mn \<noteq> {||}) of (new_inferences, updated) \<Rightarrow>
       (updated, ai2\<lparr>knowledge := filter (\<lambda>s. cells s \<noteq> {||}) (knowledge ai2 @ new_inferences)\<rparr>))"
    by (simp add: update_round_def gather_eq Let_def sf_def mn_def ai1_def ai2_def)
  also have "\<dots> = (snd (subset_inference (knowledge ai2) (sf \<noteq> {||} \<or> mn \<noteq> {||})),
      ai2\<lparr>knowledge := filter (\<lambda>s. cells s \<noteq> {||}) (knowledge ai2 @ fst (subset_inference (knowledge ai2) (sf \<noteq> {||} \<or> mn \<noteq> {||})))\<rparr>)"
    by (simp add: case_prod_beta)
  finally have "update_round ai = (snd (subset_inference (knowledge ai2) (sf \<noteq> {||} \<or> mn \<noteq> {||})),
      ai2\<lparr>knowledge := filter (\<lambda>s. cells s \<noteq> {||}) (knowledge ai2 @ fst (subset_inference (knowledge ai2) (sf \<noteq> {||} \<or> mn \<noteq> {||})))\<rparr>)" .
  then have "update_round ai = (sf \<noteq> {||} \<or> mn \<noteq> {||} \<or> \<not> candidates (List.product (map (strip sf mn) (knowledge ai)) (map (strip sf mn) (knowledge ai))) \<subseteq> set (map (strip sf mn) (knowledge ai)),
         ai\<lparr>safes := safes ai |\<union>| sf, mines := mines ai |\<union>| mn,
             knowledge := filter (\<lambda>s. cells s \<noteq> {||}) (map (strip sf mn) (knowledge ai) @ fst (subset_inference (map (strip sf mn) (knowledge ai)) (sf \<noteq> {||} \<or> mn \<noteq> {||})))\<rparr>)"
    unfolding k2 subset_inference_flag s2 by auto
  then show ?thesis
    unfolding Let_def sf_def mn_def .
qed

section \<open>Consistency with a board is preserved\<close>

lemma known_safes_true: "true_in B s \<Longrightarrow> known_safes s |\<inter>| B = {||}"
  by (auto simp: true_in_def known_safes_def fcard_0_eq)

lemma known_mines_true:
  assumes "true_in B s" shows "known_mines s |\<subseteq>| B"
proof (cases "int (fcard (cells s)) = count s \<and> count s \<noteq> 0")
  case True
  then have "fcard (cells s |\<inter>| B) = fcard (cells s)"
    using assms by (simp add: true_in_def)
  moreover have "cells s |\<inter>| B |\<subseteq>| cells s" by simp
  ultimately have "cells s |\<inter>| B = cells s"
    by (metis fcard_seteq order_refl)
  then have "cells s |\<subseteq>| B" by blast
  then show ?thesis by (simp add: known_mines_def)
next
  case False
  then show ?thesis by (auto simp: known_mines_def)
qed

lemma gathered_safes_true:
  "list_all (true_in B) K \<Longrightarrow> ffUnion (fset_of_list (map known_safes K)) |\<inter>| B = {||}"
proof (induction K)
  case Nil
  show ?case by simp
next
  case (Cons s K)
  then have "known_safes s |\<inter>| B = {||}" "ffUnion (fset_of_list (map known_safes K)) |\<inter>| B = {||}"
    by (simp_all add: known_safes_true)
  then show ?case by (simp add: inf_sup_distrib2)
qed

lemma gathered_mines_true:
  "list_all (true_in B) K \<Longrightarrow> ffUnion (fset_of_list (map known_mines K)) |\<subseteq>| B"
  by (induction K) (simp_all add: known_mines_true)

lemma true_in_strip:
  assumes "true_in B s" "sf |\<inter>| B = {||}" "mn |\<subseteq>| B"
  shows "true_in B (strip sf mn s)"
proof -
  let ?A = "(cells s |-| sf) |\<inter>| mn"
  let ?C = "(cells s |-| sf |-| mn) |\<inter>| B"
  have "cells s |\<inter>| B = ?A |\<union>| ?C" using assms(2,3) by auto
  moreover have "?A |\<inter>| ?C = {||}" by auto
  ultimately have "fcard (cells s |\<inter>| B) = fcard ?A + fcard ?C"
    by (simp add: fcard_funion_disjoint)
  then show ?thesis using assms(1) by (simp add: true_in_def strip_def)
qed

lemma true_in_difference:
  assumes "true_in B s1" "true_in B s2" "cells s1 |\<subseteq>| cells s2"
  shows "true_in B (difference s1 s2)"
proof -
  let ?A = "cells s1 |\<inter>| B"
  let ?C = "(cells s2 |-| cells s1) |\<inter>| B"
  have "cells s2 |\<inter>| B = ?A |\<union>| ?C" using assms(3) by auto
  moreover have "?A |\<inter>| ?C = {||}" by auto
  ultimately have "fcard (cells s2 |\<inter>| B) = fcard ?A + fcard ?C"
    by (simp add: fcard_funion_disjoint)
  then show ?thesis using assms(1,2) by (simp add: true_in_def difference_def)
qed

lemma candidates_true:
  "list_all (true_in B) K \<Longrightarrow> s \<in> candidates (List.product K K) \<Longrightarrow> true_in B s"
  by (auto simp: candidates_product eligible_def list_all_iff intro: true_in_difference)

lemma consistent_update_round:
  assumes "consistent B ai"
  shows "consistent B (snd (update_round ai))"
proof -
  define sf where "sf = ffUnion (fset_of_list (map known_safes (knowledge ai)))"
  define mn where "mn = ffUnion (fset_of_list (map known_mines (knowledge ai)))"
  define K2 where "K2 = map (strip sf mn) (knowledge ai)"
  have K: "list_all (true_in B) (knowledge ai)" and S: "safes ai |\<inter>| B = {||}" and M: "mines ai |\<subseteq>| B"
    using assms by (simp_all add: consistent_def)
  have sf: "sf |\<inter>| B = {||}" unfolding sf_def using K by (rule gathered_safes_true)
  have mn: "mn |\<subseteq>| B" unfolding mn_def using K by (rule gathered_mines_true)
  have K2: "list_all (true_in B) K2"
    using K sf mn by (simp add: K2_def list_all_iff true_in_strip)
  have "list_all (true_in B) (fst (subset_inference K2 u))" for u
    using candidates_true [OF K2] by (simp add: list_all_iff subset_inference_set)
  then have "list_all (true_in B) (filter (\<lambda>s. cells s \<noteq> {||}) (K2 @ fst (subset_inference K2 u)))" for u
    using K2 by (auto simp: list_all_iff)
  moreover have "(safes ai |\<union>| sf) |\<inter>| B = {||}" using S sf by (simp add: inf_sup_distrib2)
  moreover have "mines ai |\<union>| mn |\<subseteq>| B" using M mn by simp
  ultimately show ?thesis
    by (simp add: update_round_eq Let_def consistent_def sf_def mn_def K2_def)
qed

lemma update_knowledge_invariant:
  assumes ret: "update_knowledge ai = Some ai'"
    and init: "I ai"
    and step: "\<And>a. I a \<Longrightarrow> I (snd (update_round a))"
  shows "I ai' \<and> (\<exists>a. I a \<and> update_round a = (False, ai'))"
proof -
  let ?Q = "\<lambda>y. I y \<and> (\<exists>a. I a \<and> update_round a = (False, y))"
  have "I ai \<longrightarrow> ?Q ai'"
  proof (rule update_knowledge.raw_induct [where P = "\<lambda>x y. I x \<longrightarrow> ?Q y", OF _ ret])
    fix f x y
    assume IH: "\<And>x y. f x = Some y \<Longrightarrow> I x \<longrightarrow> ?Q y"
      and eq: "(case update_round x of (updated, a) \<Rightarrow> if updated then f a else Some a) = Some y"
    show "I x \<longrightarrow> ?Q y"
    proof
      assume x: "I x"
      obtain u a where r: "update_round x = (u, a)" by (cases "update_round x")
      have a: "I a" using step [OF x] r by simp
      show "?Q y"
      proof (cases u)
        case True
        then have "f a = Some y" using eq r by simp
        from IH [OF this] a show ?thesis by (rule mp)
      next
        case False
        then have y: "a = y" using eq r by simp
        have "update_round x = (False, y)" using r False y by simp
        with x have "\<exists>a. I a \<and> update_round a = (False, y)" by (intro exI conjI)
        then show ?thesis using a y by simp
      qed
    qed
  qed
  then show ?thesis using init by (rule mp)
qed

lemma consistent_update_knowledge:
  "update_knowledge ai = Some ai' \<Longrightarrow> consistent B ai \<Longrightarrow> consistent B ai'"
  using update_knowledge_invariant [where I = "consistent B", OF _ _ consistent_update_round] by simp

section \<open>Termination on a consistent knowledge base\<close>

lemma finite_open_cells [simp]: "finite (open_cells K)"
  by (simp add: open_cells_def)

lemma open_cells_append: "open_cells (K @ L) = open_cells K \<union> open_cells L"
  by (auto simp: open_cells_def)

lemma open_cells_filter: "open_cells (filter (\<lambda>s. cells s \<noteq> {||}) K) = open_cells K"
  by (auto simp: open_cells_def)

lemma open_cells_strip:
  "open_cells (map (strip sf mn) K) = open_cells K - fset sf - fset mn"
  by (auto simp: open_cells_def strip_def)

lemma candidates_open:
  "s \<in> candidates (List.product K K) \<Longrightarrow> fset (cells s) \<subseteq> open_cells K"
  by (auto simp: candidates_product open_cells_def difference_def)

lemma gathered_safes_open:
  "fset (ffUnion (fset_of_list (map known_safes K))) \<subseteq> open_cells K"
  by (induction K) (auto simp: open_cells_def known_safes_def split: if_splits)

lemma gathered_mines_open:
  "fset (ffUnion (fset_of_list (map known_mines K))) \<subseteq> open_cells K"
  by (induction K) (auto simp: open_cells_def known_mines_def split: if_splits)

lemma true_in_cells_eq: "true_in B s \<Longrightarrow> true_in B t \<Longrightarrow> cells s = cells t \<Longrightarrow> s = t"
  by (simp add: true_in_def)

lemma strip_none: "strip {||} {||} s = s"
  by (simp add: strip_def fcard_fempty)

lemma map_strip_none: "map (strip {||} {||}) K = K"
  by (simp add: strip_none map_idI)

lemma round_open_cells:
  assumes "update_round ai = (u, a)"
  shows "open_cells (knowledge a) =
     open_cells (knowledge ai)
       - fset (ffUnion (fset_of_list (map known_safes (knowledge ai))))
       - fset (ffUnion (fset_of_list (map known_mines (knowledge ai))))"
proof -
  define sf where "sf = ffUnion (fset_of_list (map known_safes (knowledge ai)))"
  define mn where "mn = ffUnion (fset_of_list (map known_mines (knowledge ai)))"
  define K2 where "K2 = map (strip sf mn) (knowledge ai)"
  have "knowledge a = filter (\<lambda>s. cells s \<noteq> {||}) (K2 @ fst (subset_inference K2 (sf \<noteq> {||} \<or> mn \<noteq> {||})))"
    using assms by (auto simp: update_round_eq Let_def sf_def mn_def K2_def)
  moreover have "open_cells (fst (subset_inference K2 v)) \<subseteq> open_cells K2" for v
    using candidates_open [of _ K2] by (auto simp: open_cells_def [of "fst _"] subset_inference_set)
  ultimately have "open_cells (knowledge a) = open_cells K2"
    by (auto simp: open_cells_filter open_cells_append)
  then show ?thesis by (simp add: K2_def open_cells_strip sf_def mn_def)
qed

lemma round_progress:
  assumes c: "consistent B ai" and r: "update_round ai = (True, a)"
  shows "(progress (knowledge a), progress (knowledge ai)) \<in> less_than <*lex*> less_than"
proof -
  define K where "K = knowledge ai"
  define sf where "sf = ffUnion (fset_of_list (map known_safes K))"
  define mn where "mn = ffUnion (fset_of_list (map known_mines K))"
  have U: "open_cells (knowledge a) = open_cells K - fset sf - fset mn"
    using round_open_cells [OF r] by (simp add: K_def sf_def mn_def)
  have sub: "fset sf \<subseteq> open_cells K" "fset mn \<subseteq> open_cells K"
    unfolding sf_def mn_def by (rule gathered_safes_open, rule gathered_mines_open)
  show ?thesis
  proof (cases "sf = {||} \<and> mn = {||}")
    case False
    then have "fset sf \<union> fset mn \<noteq> {}" by (auto simp: fset_cong)
    then have "open_cells (knowledge a) \<subset> open_cells K" using U sub by blast
    then have "card (open_cells (knowledge a)) < card (open_cells K)"
      by (simp add: psubset_card_mono)
    then show ?thesis by (simp add: progress_def K_def)
  next
    case True
    have T: "list_all (true_in B) K" using c by (simp add: consistent_def K_def)
    have Ka: "knowledge a = filter (\<lambda>s. cells s \<noteq> {||}) (K @ fst (subset_inference K False))"
      and nsub: "\<not> candidates (List.product K K) \<subseteq> set K"
      using r True by (auto simp: update_round_eq Let_def sf_def mn_def K_def map_strip_none)
    from nsub obtain n where n: "n \<in> candidates (List.product K K)" "n \<notin> set K" by blast
    then obtain s1 s2 where s: "s1 \<in> set K" "s2 \<in> set K" "eligible s1 s2" "n = difference s1 s2"
      by (auto simp: candidates_product)
    have tn: "true_in B n" using candidates_true [OF T n(1)] .
    have t12: "true_in B s1" "true_in B s2" using T s(1,2) by (simp_all add: list_all_iff)
    have "cells s1 \<noteq> cells s2" using true_in_cells_eq [OF t12] s(3) by (auto simp: eligible_def)
    then have ne: "cells n \<noteq> {||}" using s(3,4) by (auto simp: eligible_def difference_def)
    have new: "fset (cells n) \<notin> cell_sets K"
    proof
      assume "fset (cells n) \<in> cell_sets K"
      then obtain t where t: "t \<in> set K" "fset (cells t) = fset (cells n)" by (auto simp: cell_sets_def)
      then have "true_in B t" using T by (simp add: list_all_iff)
      then have "t = n" using tn t(2) by (intro true_in_cells_eq) (simp_all add: fset_cong)
      then show False using t(1) n(2) by simp
    qed
    have "n \<in> set (knowledge a)" using n ne by (simp add: Ka subset_inference_set)
    then have ina: "fset (cells n) \<in> cell_sets (knowledge a)" using ne by (auto simp: cell_sets_def)
    have mono: "cell_sets K \<subseteq> cell_sets (knowledge a)" by (auto simp: Ka cell_sets_def)
    have Ueq: "open_cells (knowledge a) = open_cells K" using U True by simp
    have inP: "fset (cells n) \<in> Pow (open_cells K)" using candidates_open [OF n(1)] by simp
    have "Pow (open_cells K) - cell_sets (knowledge a) \<subset> Pow (open_cells K) - cell_sets K"
      using mono ina new inP by blast
    then have "card (Pow (open_cells K) - cell_sets (knowledge a)) < card (Pow (open_cells K) - cell_sets K)"
      by (simp add: psubset_card_mono)
    then show ?thesis by (simp add: progress_def Ueq K_def)
  qed
qed

lemma update_knowledge_terminates:
  assumes "consistent B ai"
  shows "\<exists>ai'. update_knowledge ai = Some ai'"
proof -
  let ?R = "inv_image (less_than <*lex*> less_than) (\<lambda>ai. progress (knowledge ai))"
  have wf: "wf ?R" by (intro wf_inv_image wf_lex_prod wf_less_than)
  have "consistent B ai \<longrightarrow> (\<exists>ai'. update_knowledge ai = Some ai')"
  proof (rule wf_induct [OF wf, where P = "\<lambda>ai. consistent B ai \<longrightarrow> (\<exists>ai'. update_knowledge ai = Some ai')"])
    fix x
    assume IH: "\<forall>y. (y, x) \<in> ?R \<longrightarrow> consistent B y \<longrightarrow> (\<exists>ai'. update_knowledge y = Some ai')"
    show "consistent B x \<longrightarrow> (\<exists>ai'. update_knowledge x = Some ai')"
    proof
      assume c: "consistent B x"
      obtain u a where r: "update_round x = (u, a)" by (cases "update_round x")
      show "\<exists>ai'. update_knowledge x = Some ai'"
      proof (cases u)
        case True
        have "consistent B a" using consistent_update_round [OF c] r by simp
        moreover have "(a, x) \<in> ?R"
          using round_progress [OF c] r True by simp
        ultimately obtain ai' where "update_knowledge a = Some ai'" using IH by blast
        then have "update_knowledge x = Some ai'"
          by (subst update_knowledge.simps) (simp add: r True)
        then show ?thesis ..
      next
        case False
        have "update_knowledge x = Some a"
          by (subst update_knowledge.simps) (simp add: r False)
        then show ?thesis ..
      qed
    qed
  qed
  then show ?thesis using assms by (rule mp)
qed

section \<open>The neighbour scan\<close>

lemma around_eq:
  "around (i, j) = [(i - 1, j - 1), (i - 1, j), (i - 1, j + 1), (i, j - 1), (i, j + 1),
                    (i + 1, j - 1), (i + 1, j), (i + 1, j + 1)]"
  by (simp add: around_def offsets_def)

lemma distinct_around: "distinct (around c)"
  by (cases c) (simp add: around_eq)

lemma set_all_cells: "p |\<in>| all_cells h w \<longleftrightarrow> in_bounds h w p"
  by (cases p) (force simp: all_cells_def in_bounds_def fset_of_list.rep_eq)

lemma set_around:
  "p \<in> set (around c) \<longleftrightarrow> p \<noteq> c \<and> \<bar>fst p - fst c\<bar> \<le> 1 \<and> \<bar>snd p - snd c\<bar> \<le> 1"
proof (cases p, cases c)
  fix a b i j
  assume p: "p = (a, b)" and c: "c = (i, j)"
  have "(a = i - 1 \<or> a = i \<or> a = i + 1) \<longleftrightarrow> \<bar>a - i\<bar> \<le> 1" by arith
  moreover have "(b = j - 1 \<or> b = j \<or> b = j + 1) \<longleftrightarrow> \<bar>b - j\<bar> \<le> 1" by arith
  moreover have "(a, b) \<in> set (around (i, j)) \<longleftrightarrow>
      (a = i - 1 \<or> a = i \<or> a = i + 1) \<and> (b = j - 1 \<or> b = j \<or> b = j + 1) \<and> (a, b) \<noteq> (i, j)"
    unfolding around_eq by auto
  ultimately show ?thesis
    unfolding p c by auto
qed

lemma neighbors8_iff:
  "p |\<in>| neighbors8 h w c \<longleftrightarrow> in_bounds h w p \<and> p \<in> set (around c)"
  by (auto simp: neighbors8_def set_all_cells set_around)

lemma neighbors8_around: "neighbors8 h w c = ffilter (in_bounds h w) (fset_of_list (around c))"
  by (rule fset_eqI) (auto simp: neighbors8_iff fset_of_list.rep_eq)

lemma fcard_filter_distinct:
  "distinct xs \<Longrightarrow> int (length (filter P xs)) = int (fcard (ffilter P (fset_of_list xs)))"
proof -
  assume "distinct xs"
  then have "distinct (filter P xs)" by simp
  then have "length (filter P xs) = card (set (filter P xs))"
    by (rule distinct_card [symmetric])
  also have "set (filter P xs) = fset (ffilter P (fset_of_list xs))"
    by (auto simp: fset_of_list.rep_eq)
  finally show ?thesis by (simp add: fcard.rep_eq)
qed

lemma neighbor_step_eq:
  "neighbor_step ai c d (N, k) =
     (if d = (0, 0) then (N, k)
      else (if in_bounds (height ai) (width ai) (fst c + fst d, snd c + snd d) \<and>
               (fst c + fst d, snd c + snd d) |\<notin>| mines ai \<and>
               (fst c + fst d, snd c + snd d) |\<notin>| safes ai
            then finsert (fst c + fst d, snd c + snd d) N else N,
            if in_bounds (height ai) (width ai) (fst c + fst d, snd c + snd d) \<and>
               (fst c + fst d, snd c + snd d) |\<in>| mines ai
            then k - 1 else k))"
  by (simp add: neighbor_step_def in_bounds_def Let_def)

lemma scan_fold:
  "fold (neighbor_step ai c) ds (N, k) =
     (N |\<union>| ffilter (\<lambda>p. in_bounds (height ai) (width ai) p \<and> p |\<notin>| mines ai \<and> p |\<notin>| safes ai)
               (fset_of_list [(fst c + fst d, snd c + snd d). d \<leftarrow> ds, d \<noteq> (0, 0)]),
      k - int (length (filter (\<lambda>p. in_bounds (height ai) (width ai) p \<and> p |\<in>| mines ai)
                 [(fst c + fst d, snd c + snd d). d \<leftarrow> ds, d \<noteq> (0, 0)])))"
proof (induction ds arbitrary: N k)
  case Nil
  show ?case by auto
next
  case (Cons d ds)
  obtain N' k' where s: "neighbor_step ai c d (N, k) = (N', k')"
    by (cases "neighbor_step ai c d (N, k)")
  have "fold (neighbor_step ai c) (d # ds) (N, k) = fold (neighbor_step ai c) ds (N', k')"
    by (simp add: s)
  also note Cons.IH [of N' k']
  finally show ?case
    using s unfolding neighbor_step_eq by (auto split: if_splits)
qed

lemma around_offsets: "[(fst c + fst d, snd c + snd d). d \<leftarrow> offsets, d \<noteq> (0, 0)] = around c"
  by (simp add: around_def offsets_def)

lemma scan_neighbors_eq:
  "scan_neighbors ai c n =
     (ffilter (\<lambda>p. p |\<notin>| mines ai \<and> p |\<notin>| safes ai) (neighbors8 (height ai) (width ai) c),
      n - int (fcard (neighbors8 (height ai) (width ai) c |\<inter>| mines ai)))"
proof -
  let ?inb = "in_bounds (height ai) (width ai)"
  have 1: "ffilter (\<lambda>p. ?inb p \<and> p |\<notin>| mines ai \<and> p |\<notin>| safes ai) (fset_of_list (around c))
      = ffilter (\<lambda>p. p |\<notin>| mines ai \<and> p |\<notin>| safes ai) (neighbors8 (height ai) (width ai) c)"
    by (auto simp: neighbors8_around)
  have "ffilter (\<lambda>p. ?inb p \<and> p |\<in>| mines ai) (fset_of_list (around c))
      = neighbors8 (height ai) (width ai) c |\<inter>| mines ai"
    by (auto simp: neighbors8_around)
  then have 2: "int (length (filter (\<lambda>p. ?inb p \<and> p |\<in>| mines ai) (around c)))
      = int (fcard (neighbors8 (height ai) (width ai) c |\<inter>| mines ai))"
    by (simp add: fcard_filter_distinct [OF distinct_around])
  show ?thesis
    unfolding scan_neighbors_def scan_fold around_offsets 1 2 by simp
qed

lemma not_in_neighbors8: "c |\<notin>| neighbors8 h w c"
  by (simp add: neighbors8_def)

lemma new_sentence_eq:
  "new_sentence ai c n =
     \<lparr>cells = ffilter (\<lambda>p. p |\<notin>| mines ai \<and> p |\<notin>| safes ai) (neighbors8 (height ai) (width ai) c),
      count = n - int (fcard (neighbors8 (height ai) (width ai) c |\<inter>| mines ai))\<rparr>"
proof -
  have "ffilter (\<lambda>p. p |\<notin>| mines ai \<and> p |\<notin>| finsert c (safes ai)) (neighbors8 (height ai) (width ai) c)
      = ffilter (\<lambda>p. p |\<notin>| mines ai \<and> p |\<notin>| safes ai) (neighbors8 (height ai) (width ai) c)"
    using not_in_neighbors8 [of c "height ai" "width ai"] by auto
  then show ?thesis
    by (simp add: new_sentence_def scan_neighbors_eq record_move_def mark_safe_def Sentence_def)
qed

section \<open>Observations of a board\<close>

lemma nearby_fold:
  "fold (nearby_step g c) ps k =
     k + int (length (filter (\<lambda>p. p \<noteq> c \<and> in_bounds (board_height g) (board_width g) p \<and> is_mine g p) ps))"
  by (induction ps arbitrary: k) (simp_all add: nearby_step_def in_bounds_def is_mine_def)

lemma upto3: "[i - 1..i + 1] = [i - 1, i, i + 1]"
proof -
  have "[i - 1..i + 1] = (i - 1) # [i..i + 1]" using upto_rec1 [of "i - 1" "i + 1"] by simp
  also have "[i..i + 1] = i # [i + 1..i + 1]" using upto_rec1 [of i "i + 1"] by simp
  finally show ?thesis by simp
qed

lemma block_eq:
  "[(a, b). a \<leftarrow> [i - 1..i + 1], b \<leftarrow> [j - 1..j + 1]] =
     [(i - 1, j - 1), (i - 1, j), (i - 1, j + 1), (i, j - 1), (i, j), (i, j + 1),
      (i + 1, j - 1), (i + 1, j), (i + 1, j + 1)]"
  by (simp add: upto3)

lemma nearby_mines_eq:
  "nearby_mines g c = int (fcard (neighbors8 (board_height g) (board_width g) c |\<inter>| board_mines g))"
proof -
  obtain i j where c: "c = (i, j)" by (cases c)
  let ?ps = "[(a, b). a \<leftarrow> [i - 1..i + 1], b \<leftarrow> [j - 1..j + 1]]"
  let ?P = "\<lambda>p. p \<noteq> c \<and> in_bounds (board_height g) (board_width g) p \<and> is_mine g p"
  have d: "distinct ?ps" unfolding block_eq by simp
  have s: "set ?ps = insert c (set (around c))" unfolding block_eq c around_eq by auto
  have "c \<notin> set (around c)" by (simp add: set_around)
  then have "ffilter ?P (fset_of_list ?ps) = neighbors8 (board_height g) (board_width g) c |\<inter>| board_mines g"
    using s by (auto simp: neighbors8_iff board_mines_def set_all_cells fset_of_list.rep_eq)
  then have "int (length (filter ?P ?ps)) = int (fcard (neighbors8 (board_height g) (board_width g) c |\<inter>| board_mines g))"
    using fcard_filter_distinct [OF d, of ?P] by simp
  then show ?thesis by (simp add: nearby_mines_def nearby_fold c)
qed

lemma legal_probe_not_mine: "legal_probe g c \<Longrightarrow> c |\<notin>| board_mines g"
  by (simp add: legal_probe_def board_mines_def)

lemma true_in_mark_safe: "c |\<notin>| B \<Longrightarrow> true_in B s \<Longrightarrow> true_in B (sentence_mark_safe c s)"
proof -
  assume "c |\<notin>| B"
  then have "(cells s |-| {|c|}) |\<inter>| B = cells s |\<inter>| B" by auto
  moreover assume "true_in B s"
  ultimately show ?thesis by (simp add: true_in_def sentence_mark_safe_def)
qed

lemma true_in_new_sentence:
  assumes "mines ai |\<subseteq>| B" "safes ai |\<inter>| B = {||}"
  shows "true_in B (new_sentence ai c (int (fcard (neighbors8 (height ai) (width ai) c |\<inter>| B))))"
proof -
  let ?N = "neighbors8 (height ai) (width ai) c"
  let ?A = "?N |\<inter>| mines ai"
  let ?C = "ffilter (\<lambda>p. p |\<notin>| mines ai \<and> p |\<notin>| safes ai) ?N |\<inter>| B"
  have "?N |\<inter>| B = ?A |\<union>| ?C" using assms by auto
  moreover have "?A |\<inter>| ?C = {||}" by auto
  ultimately have "fcard (?N |\<inter>| B) = fcard ?A + fcard ?C"
    by (simp add: fcard_funion_disjoint)
  then show ?thesis by (simp add: new_sentence_eq true_in_def)
qed

lemma consistent_add_sentence:
  assumes c: "consistent (board_mines g) ai"
    and dims: "height ai = board_height g" "width ai = board_width g"
    and probe: "legal_probe g c"
  shows "consistent (board_mines g) (add_sentence ai c (nearby_mines g c))"
proof -
  let ?B = "board_mines g"
  have K: "list_all (true_in ?B) (knowledge ai)" and S: "safes ai |\<inter>| ?B = {||}" and M: "mines ai |\<subseteq>| ?B"
    using c by (simp_all add: consistent_def)
  have nc: "c |\<notin>| ?B" using probe by (rule legal_probe_not_mine)
  have new: "true_in ?B (new_sentence ai c (nearby_mines g c))"
    using true_in_new_sentence [OF M S, of c] by (simp add: nearby_mines_eq dims)
  have old: "list_all (true_in ?B) (map (sentence_mark_safe c) (knowledge ai))"
    using K nc by (simp add: list_all_iff true_in_mark_safe)
  have "finsert c (safes ai) |\<inter>| ?B = {||}" using S nc by auto
  then show ?thesis
    using new old M
    by (simp add: consistent_def add_sentence_def record_move_def mark_safe_def append_if_new_def Let_def)
qed

lemma update_round_dims:
  "height (snd (update_round ai)) = height ai \<and> width (snd (update_round ai)) = width ai \<and>
   moves_made (snd (update_round ai)) = moves_made ai"
  by (simp add: update_round_eq Let_def)

lemma update_knowledge_dims:
  assumes "update_knowledge ai = Some ai'"
  shows "height ai' = height ai \<and> width ai' = width ai \<and> moves_made ai' = moves_made ai"
  using update_knowledge_invariant [OF assms,
      where I = "\<lambda>a. height a = height ai \<and> width a = width ai \<and> moves_made a = moves_made ai"]
  by (simp add: update_round_dims)

lemma add_sentence_dims:
  "height (add_sentence ai c n) = height ai \<and> width (add_sentence ai c n) = width ai"
  by (simp add: add_sentence_def record_move_def mark_safe_def Let_def)

lemma observe_all_consistent:
  assumes "list_all (legal_probe g) cs"
    and "consistent (board_mines g) ai"
    and "height ai = board_height g" "width ai = board_width g"
  shows "\<exists>ai'. observe_all g cs ai = Some ai' \<and> consistent (board_mines g) ai'"
  using assms
proof (induction cs arbitrary: ai)
  case Nil
  then show ?case by simp
next
  case (Cons c cs)
  let ?a = "add_sentence ai c (nearby_mines g c)"
  have p: "legal_probe g c" and ps: "list_all (legal_probe g) cs" using Cons.prems(1) by simp_all
  have ca: "consistent (board_mines g) ?a"
    using Cons.prems(2-4) p by (rule consistent_add_sentence)
  then obtain a' where a': "update_knowledge ?a = Some a'"
    using update_knowledge_terminates by blast
  have c': "consistent (board_mines g) a'" using a' ca by (rule consistent_update_knowledge)
  have d': "height a' = board_height g" "width a' = board_width g"
    using update_knowledge_dims [OF a'] add_sentence_dims [of ai c] Cons.prems(3,4) by simp_all
  obtain r where "observe_all g cs a' = Some r \<and> consistent (board_mines g) r"
    using Cons.IH [OF ps c' d'] by blast
  then show ?case by (simp add: add_knowledge_def a')
qed

lemma consistent_init: "consistent B (MinesweeperAI h w)"
  by (simp add: consistent_def MinesweeperAI_def)

lemma consistent_disjoint: "consistent B ai \<Longrightarrow> safes ai |\<inter>| mines ai = {||}"
  by (auto simp: consistent_def)

subsection \<open>A round that repeats itself\<close>

lemma update_knowledge_diverges:
  assumes "update_round ai = (True, ai)"
  shows "update_knowledge ai = None"
proof (cases "update_knowledge ai")
  case None
  then show ?thesis .
next
  case (Some y)
  have "ai \<noteq> ai"
  proof (rule update_knowledge.raw_induct [where P = "\<lambda>x y. x \<noteq> ai", OF _ Some])
    fix f x y
    assume IH: "\<And>x y. f x = Some y \<Longrightarrow> x \<noteq> ai"
      and eq: "(case update_round x of (updated, a) \<Rightarrow> if updated then f a else Some a) = Some y"
    show "x \<noteq> ai"
    proof
      assume "x = ai"
      then have "f ai = Some y" using eq assms by simp
      then show False using IH by blast
    qed
  qed
  then show ?thesis by simp
qed

section \<open>The claims\<close>

text \<open>
  C7. For every call \<open>add_knowledge(cell, count)\<close>, the sentence handed to the insertion
  has as its cells exactly the in-bounds 8-neighbours of the cell that are in neither
  \<open>mines\<close> nor \<open>safes\<close> when the call is made, and as its count the reported count
  minus the number of in-bounds 8-neighbours that are in \<open>mines\<close>; the insertion is
  applied to the knowledge as it stands after the cell has been marked safe.
\<close>

theorem observation_builds_sentence:
  "new_sentence ai c n =
     \<lparr>cells = ffilter (\<lambda>p. p |\<notin>| mines ai \<and> p |\<notin>| safes ai) (neighbors8 (height ai) (width ai) c),
      count = n - int (fcard (neighbors8 (height ai) (width ai) c |\<inter>| mines ai))\<rparr>
   \<and> knowledge (add_sentence ai c n) =
       append_if_new (new_sentence ai c n) (map (sentence_mark_safe c) (knowledge ai))"
  by (simp add: new_sentence_eq add_sentence_def record_move_def mark_safe_def Let_def)

text \<open>
  C10. \<open>make_safe_move\<close> and \<open>make_random_move\<close> leave the state of the agent as it
  is: the moves made, the safes, the mines and the stored sentences are unchanged,
  whatever the iteration order and the random draw.
\<close>

theorem move_queries_change_nothing:
  "snd (make_safe_move order ai) = ai \<and> snd (make_random_move r ai) = ai"
  by (simp add: make_safe_move_def make_random_move_def)

subsection \<open>Random moves\<close>

lemma set_choices: "set (choices ai) = fset (candidate_moves ai)"
proof -
  have "set (choices ai) = {p. in_bounds (height ai) (width ai) p \<and> p |\<notin>| moves_made ai \<and> p |\<notin>| mines ai}"
    by (auto simp: choices_def in_bounds_def)
  moreover have "fset (candidate_moves ai) = {p. in_bounds (height ai) (width ai) p \<and> p |\<notin>| moves_made ai \<and> p |\<notin>| mines ai}"
    by (rule set_eqI) (simp add: candidate_moves_def set_all_cells)
  ultimately show ?thesis by simp
qed

lemma random_choice_mem: "xs \<noteq> [] \<Longrightarrow> random_choice r xs \<in> set xs"
  by (simp add: random_choice_def)

lemma random_choice_any: "x \<in> set xs \<Longrightarrow> \<exists>r. random_choice r xs = x"
proof -
  assume "x \<in> set xs"
  then obtain i where "i < length xs" "xs ! i = x" by (auto simp: in_set_conv_nth)
  then have "random_choice i xs = x" by (simp add: random_choice_def)
  then show ?thesis ..
qed

text \<open>
  C8. \<open>make_random_move\<close> returns a cell of the set of all in-bounds cells minus the
  moves made minus the mines, whatever the random draw, and every cell of that set is
  returned for some draw; it returns \<open>None\<close> exactly when the set is empty. When
  \<open>(5, 5)\<close> is a cell of the grid, every other cell is a move made and no mine is
  known, it returns \<open>(5, 5)\<close> for every draw.
\<close>

theorem random_move_from_candidates:
  "(fst (make_random_move r ai) = None \<longleftrightarrow> candidate_moves ai = {||})
   \<and> (\<forall>c. fst (make_random_move r ai) = Some c \<longrightarrow> c |\<in>| candidate_moves ai)
   \<and> (\<forall>c. c |\<in>| candidate_moves ai \<longrightarrow> (\<exists>r'. fst (make_random_move r' ai) = Some c))
   \<and> (in_bounds (height ai) (width ai) (5, 5)
        \<and> (\<forall>c. in_bounds (height ai) (width ai) c \<longrightarrow> (c |\<in>| moves_made ai \<longleftrightarrow> c \<noteq> (5, 5)))
        \<and> mines ai = {||}
       \<longrightarrow> fst (make_random_move r ai) = Some (5, 5))"
proof (intro conjI allI impI)
  have e: "choices ai = [] \<longleftrightarrow> candidate_moves ai = {||}"
  proof -
    have "choices ai = [] \<longleftrightarrow> set (choices ai) = {}" by simp
    also have "\<dots> \<longleftrightarrow> fset (candidate_moves ai) = {}" by (simp only: set_choices)
    also have "\<dots> \<longleftrightarrow> candidate_moves ai = {||}" by auto
    finally show ?thesis .
  qed
  show "fst (make_random_move r ai) = None \<longleftrightarrow> candidate_moves ai = {||}"
    by (simp add: make_random_move_def e)
  show "c |\<in>| candidate_moves ai" if "fst (make_random_move r ai) = Some c" for c
  proof -
    from that have "choices ai \<noteq> []" "c = random_choice r (choices ai)"
      by (auto simp: make_random_move_def split: if_splits)
    then have "c \<in> set (choices ai)" by (simp add: random_choice_mem)
    then show ?thesis by (simp add: set_choices)
  qed
  show "\<exists>r'. fst (make_random_move r' ai) = Some c" if "c |\<in>| candidate_moves ai" for c
  proof -
    from that have c: "c \<in> set (choices ai)" by (simp add: set_choices)
    from random_choice_any [OF c] obtain r' where "random_choice r' (choices ai) = c" ..
    moreover have "choices ai \<noteq> []" using c by auto
    ultimately have "fst (make_random_move r' ai) = Some c" by (simp add: make_random_move_def)
    then show ?thesis ..
  qed
  show "fst (make_random_move r ai) = Some (5, 5)"
    if h: "in_bounds (height ai) (width ai) (5, 5)
        \<and> (\<forall>c. in_bounds (height ai) (width ai) c \<longrightarrow> (c |\<in>| moves_made ai \<longleftrightarrow> c \<noteq> (5, 5)))
        \<and> mines ai = {||}"
  proof -
    have m: "p |\<in>| moves_made ai \<longleftrightarrow> p \<noteq> (5, 5)" if "in_bounds (height ai) (width ai) p" for p
      using h that by blast
    have "p |\<in>| candidate_moves ai \<longleftrightarrow> p = (5, 5)" for p
      unfolding candidate_moves_def using h m [of p] m [of "(5, 5)"]
      by (cases "p = (5, 5)") (auto simp: set_all_cells)
    then have "candidate_moves ai = {|(5, 5)|}"
      by (intro fset_eqI) simp
    then have s: "set (choices ai) = {(5, 5)}" by (simp add: set_choices)
    then have ne: "choices ai \<noteq> []" by auto
    then have "random_choice r (choices ai) \<in> {(5, 5)}" using random_choice_mem s by blast
    then show ?thesis using ne by (simp add: make_random_move_def)
  qed
qed

text \<open>The scenario on a 6 by 6 grid.\<close>

theorem random_move_witness:
  "fst (make_random_move 3 one_left) = Some (5, 5) \<and> (5, 5) |\<in>| candidate_moves one_left"
proof -
  have 1: "in_bounds (height one_left) (width one_left) (5, 5)"
    by (simp add: one_left_def in_bounds_def)
  have 2: "\<forall>c. in_bounds (height one_left) (width one_left) c \<longrightarrow> (c |\<in>| moves_made one_left \<longleftrightarrow> c \<noteq> (5, 5))"
    by (simp add: one_left_def set_all_cells)
  have 3: "mines one_left = {||}" by (simp add: one_left_def)
  from random_move_from_candidates [of 3 one_left] 1 2 3
  have r: "fst (make_random_move 3 one_left) = Some (5, 5)" by blast
  with random_move_from_candidates [of 3 one_left] show ?thesis by blast
qed

subsection \<open>The subset rule\<close>

lemma fcard3: "A \<noteq> B \<Longrightarrow> A \<noteq> C \<Longrightarrow> B \<noteq> C \<Longrightarrow> fcard {|A, B, C|} = 3"
  by (simp add: fcard_finsert_if)

lemma fcard2: "A \<noteq> B \<Longrightarrow> fcard {|A, B|} = 2"
  by (simp add: fcard_finsert_if)

lemma fcard1: "fcard {|A|} = 1"
  by (simp add: fcard_finsert_if)

lemma round_empty_marks:
  "update_round ai =
     (let (sf, mn) = gather (knowledge ai);
          K2 = map (strip sf mn) (knowledge ai)
      in (snd (subset_inference K2 (sf \<noteq> {||} \<or> mn \<noteq> {||})),
          ai\<lparr>safes := safes ai |\<union>| sf, mines := mines ai |\<union>| mn,
             knowledge := filter (\<lambda>s. cells s \<noteq> {||}) (K2 @ fst (subset_inference K2 (sf \<noteq> {||} \<or> mn \<noteq> {||})))\<rparr>))"
  by (auto simp add: update_round_eq gather_eq Let_def subset_inference_flag)

lemma scenario_round1:
  assumes "A \<noteq> B" "A \<noteq> C" "B \<noteq> C"
    and "knowledge ai = [\<lparr>cells = {|A, B, C|}, count = 2\<rparr>, \<lparr>cells = {|A, B|}, count = 1\<rparr>]"
  shows "update_round ai = (True, ai\<lparr>knowledge := [\<lparr>cells = {|A, B, C|}, count = 2\<rparr>, \<lparr>cells = {|A, B|}, count = 1\<rparr>, \<lparr>cells = {|C|}, count = 1\<rparr>]\<rparr>)"
  using assms
  by (simp add: round_empty_marks gather_def known_safes_def known_mines_def fcard3 fcard2 fcard1 strip_def
      subset_inference_def infer_step_def Sentence_def Let_def fcard_fempty)

lemma scenario_round1':
  assumes "A \<noteq> B" "A \<noteq> C" "B \<noteq> C"
    and "knowledge ai = [\<lparr>cells = {|A, B|}, count = 1\<rparr>, \<lparr>cells = {|A, B, C|}, count = 2\<rparr>]"
  shows "update_round ai = (True, ai\<lparr>knowledge := [\<lparr>cells = {|A, B|}, count = 1\<rparr>, \<lparr>cells = {|A, B, C|}, count = 2\<rparr>, \<lparr>cells = {|C|}, count = 1\<rparr>]\<rparr>)"
  using assms
  by (simp add: round_empty_marks gather_def known_safes_def known_mines_def fcard3 fcard2 fcard1 strip_def
      subset_inference_def infer_step_def Sentence_def Let_def fcard_fempty)

lemma scenario_round3:
  assumes "A \<noteq> B"
    and "knowledge ai = [\<lparr>cells = {|A, B|}, count = 1\<rparr>, \<lparr>cells = {|A, B|}, count = 1\<rparr>]"
  shows "update_round ai = (False, ai)"
  using assms
  by (simp add: round_empty_marks gather_def known_safes_def known_mines_def fcard3 fcard2 fcard1 strip_def
      subset_inference_def infer_step_def Sentence_def Let_def fcard_fempty)

lemma strip_big:
  assumes "A \<noteq> C" "B \<noteq> C"
  shows "strip {||} {|C|} \<lparr>cells = {|A, B, C|}, count = 2\<rparr> = \<lparr>cells = {|A, B|}, count = 1\<rparr>"
proof -
  have "{|A, B, C|} |-| {|C|} = {|A, B|}" using assms by auto
  moreover have "{|A, B, C|} |\<inter>| {|C|} = {|C|}" by auto
  ultimately show ?thesis by (simp add: strip_def fcard1)
qed

lemma strip_small:
  assumes "A \<noteq> C" "B \<noteq> C"
  shows "strip {||} {|C|} \<lparr>cells = {|A, B|}, count = 1\<rparr> = \<lparr>cells = {|A, B|}, count = 1\<rparr>"
proof -
  have "{|A, B|} |-| {|C|} = {|A, B|}" using assms by auto
  moreover have "{|A, B|} |\<inter>| {|C|} = {||}" using assms by auto
  ultimately show ?thesis by (simp add: strip_def fcard_fempty)
qed

lemma strip_single:
  "strip {||} {|C|} \<lparr>cells = {|C|}, count = 1\<rparr> = \<lparr>cells = {||}, count = 0\<rparr>"
  by (simp add: strip_def fcard1)

lemma gather2:
  assumes "A \<noteq> B" "A \<noteq> C" "B \<noteq> C"
  shows "gather [\<lparr>cells = {|A, B, C|}, count = 2\<rparr>, \<lparr>cells = {|A, B|}, count = 1\<rparr>, \<lparr>cells = {|C|}, count = 1\<rparr>] = ({||}, {|C|})"
    and "gather [\<lparr>cells = {|A, B|}, count = 1\<rparr>, \<lparr>cells = {|A, B, C|}, count = 2\<rparr>, \<lparr>cells = {|C|}, count = 1\<rparr>] = ({||}, {|C|})"
  using assms by (simp_all add: gather_def known_safes_def known_mines_def fcard3 fcard2 fcard1)

lemma infer_same:
  "subset_inference [\<lparr>cells = {|A, B|}, count = 1\<rparr>, \<lparr>cells = {|A, B|}, count = 1\<rparr>, \<lparr>cells = {||}, count = 0\<rparr>] u = ([], u)"
  by (simp add: subset_inference_def infer_step_def)

lemma scenario_round2:
  assumes "A \<noteq> B" "A \<noteq> C" "B \<noteq> C"
    and "knowledge ai = [\<lparr>cells = {|A, B, C|}, count = 2\<rparr>, \<lparr>cells = {|A, B|}, count = 1\<rparr>, \<lparr>cells = {|C|}, count = 1\<rparr>]"
  shows "update_round ai = (True, ai\<lparr>safes := safes ai, mines := finsert C (mines ai), knowledge := [\<lparr>cells = {|A, B|}, count = 1\<rparr>, \<lparr>cells = {|A, B|}, count = 1\<rparr>]\<rparr>)"
  using assms
  by (simp add: round_empty_marks gather2 strip_big strip_small strip_single infer_same)

lemma scenario_round2':
  assumes "A \<noteq> B" "A \<noteq> C" "B \<noteq> C"
    and "knowledge ai = [\<lparr>cells = {|A, B|}, count = 1\<rparr>, \<lparr>cells = {|A, B, C|}, count = 2\<rparr>, \<lparr>cells = {|C|}, count = 1\<rparr>]"
  shows "update_round ai = (True, ai\<lparr>safes := safes ai, mines := finsert C (mines ai), knowledge := [\<lparr>cells = {|A, B|}, count = 1\<rparr>, \<lparr>cells = {|A, B|}, count = 1\<rparr>]\<rparr>)"
  using assms
  by (simp add: round_empty_marks gather2 strip_big strip_small strip_single infer_same)

lemma update_knowledge_continue:
  "update_round ai = (True, a) \<Longrightarrow> update_knowledge ai = update_knowledge a"
  by (subst update_knowledge.simps) simp

lemma update_knowledge_stop:
  "update_round ai = (False, a) \<Longrightarrow> update_knowledge ai = Some a"
  by (subst update_knowledge.simps) simp

lemma scenario_mine:
  assumes d: "A \<noteq> B" "A \<noteq> C" "B \<noteq> C"
    and K: "knowledge ai = [\<lparr>cells = {|A, B, C|}, count = 2\<rparr>, \<lparr>cells = {|A, B|}, count = 1\<rparr>]
       \<or> knowledge ai = [\<lparr>cells = {|A, B|}, count = 1\<rparr>, \<lparr>cells = {|A, B, C|}, count = 2\<rparr>]"
  shows "update_knowledge ai =
     Some (ai\<lparr>mines := finsert C (mines ai),
              knowledge := [\<lparr>cells = {|A, B|}, count = 1\<rparr>, \<lparr>cells = {|A, B|}, count = 1\<rparr>]\<rparr>)"
proof -
  let ?ab = "\<lparr>cells = {|A, B|}, count = 1\<rparr>"
  let ?end = "ai\<lparr>mines := finsert C (mines ai), knowledge := [?ab, ?ab]\<rparr>"
  have 3: "update_knowledge ?end = Some ?end"
    by (rule update_knowledge_stop, rule scenario_round3 [OF d(1)]) simp
  from K show ?thesis
  proof
    assume k: "knowledge ai = [\<lparr>cells = {|A, B, C|}, count = 2\<rparr>, ?ab]"
    let ?a1 = "ai\<lparr>knowledge := [\<lparr>cells = {|A, B, C|}, count = 2\<rparr>, ?ab, \<lparr>cells = {|C|}, count = 1\<rparr>]\<rparr>"
    have "update_knowledge ai = update_knowledge ?a1"
      by (rule update_knowledge_continue, rule scenario_round1 [OF d k])
    also have "update_round ?a1 = (True, ?end)"
      using scenario_round2 [OF d, of ?a1] by simp
    then have "update_knowledge ?a1 = update_knowledge ?end"
      by (rule update_knowledge_continue)
    finally show ?thesis using 3 by simp
  next
    assume k: "knowledge ai = [?ab, \<lparr>cells = {|A, B, C|}, count = 2\<rparr>]"
    let ?a1 = "ai\<lparr>knowledge := [?ab, \<lparr>cells = {|A, B, C|}, count = 2\<rparr>, \<lparr>cells = {|C|}, count = 1\<rparr>]\<rparr>"
    have "update_knowledge ai = update_knowledge ?a1"
      by (rule update_knowledge_continue, rule scenario_round1' [OF d k])
    also have "update_round ?a1 = (True, ?end)"
      using scenario_round2' [OF d, of ?a1] by simp
    then have "update_knowledge ?a1 = update_knowledge ?end"
      by (rule update_knowledge_continue)
    finally show ?thesis using 3 by simp
  qed
qed

lemma candidate_derived:
  assumes "s1 \<in> set K" "s2 \<in> set K" "s1 \<noteq> s2" "cells s1 \<noteq> {||}" "cells s2 \<noteq> {||}"
    "cells s1 |\<subseteq>| cells s2"
  shows "Sentence (cells s2 |-| cells s1) (count s2 - count s1) \<in> set (K @ fst (subset_inference K u))"
proof -
  have "difference s1 s2 \<in> candidates (List.product K K)"
    using assms by (auto simp: candidates_product eligible_def)
  then show ?thesis
    by (auto simp: subset_inference_set difference_def Sentence_def)
qed

lemma round_knowledge:
  "knowledge (snd (update_round ai)) =
     (let K2 = map (strip (fst (gather (knowledge ai))) (snd (gather (knowledge ai)))) (knowledge ai)
      in filter (\<lambda>s. cells s \<noteq> {||})
           (K2 @ fst (subset_inference K2 (fst (gather (knowledge ai)) \<noteq> {||} \<or> snd (gather (knowledge ai)) \<noteq> {||}))))"
  by (simp add: round_empty_marks Let_def case_prod_beta)

text \<open>
  C1. The subset rule is performed: for every ordered pair of distinct, non-empty
  sentences \<open>(s1, s2)\<close> of the knowledge with the cells of \<open>s1\<close> among those of \<open>s2\<close>,
  the two loops of a round derive the sentence of the remaining cells with the
  difference of the counts, so that it is stored or among the new inferences; taken
  on the knowledge as the marking of the round leaves it, the derived sentence is in
  the knowledge at the end of the round unless its cell set is empty. If the knowledge
  holds exactly \<open>({A, B, C}, 2)\<close> and \<open>({A, B}, 1)\<close> for distinct cells, in either
  order, then \<open>update_knowledge\<close> returns and \<open>C\<close> is in \<open>mines\<close>.
\<close>

theorem subset_subtraction:
  "(\<forall>s1\<in>set K. \<forall>s2\<in>set K.
      s1 \<noteq> s2 \<and> cells s1 \<noteq> {||} \<and> cells s2 \<noteq> {||} \<and> cells s1 |\<subseteq>| cells s2 \<longrightarrow>
      Sentence (cells s2 |-| cells s1) (count s2 - count s1) \<in> set (K @ fst (subset_inference K u)))
   \<and> (\<forall>s1\<in>set (map (strip (fst (gather (knowledge ai))) (snd (gather (knowledge ai)))) (knowledge ai)).
       \<forall>s2\<in>set (map (strip (fst (gather (knowledge ai))) (snd (gather (knowledge ai)))) (knowledge ai)).
      s1 \<noteq> s2 \<and> cells s1 \<noteq> {||} \<and> cells s2 \<noteq> {||} \<and> cells s1 |\<subseteq>| cells s2
        \<and> cells s2 |-| cells s1 \<noteq> {||} \<longrightarrow>
      Sentence (cells s2 |-| cells s1) (count s2 - count s1) \<in> set (knowledge (snd (update_round ai))))
   \<and> (A \<noteq> B \<and> A \<noteq> C \<and> B \<noteq> C \<and>
       (knowledge ai = [\<lparr>cells = {|A, B, C|}, count = 2\<rparr>, \<lparr>cells = {|A, B|}, count = 1\<rparr>]
        \<or> knowledge ai = [\<lparr>cells = {|A, B|}, count = 1\<rparr>, \<lparr>cells = {|A, B, C|}, count = 2\<rparr>]) \<longrightarrow>
       (\<exists>ai'. update_knowledge ai = Some ai' \<and> C |\<in>| mines ai'))"
proof (intro conjI ballI impI)
  fix s1 s2
  assume "s1 \<in> set K" "s2 \<in> set K"
    "s1 \<noteq> s2 \<and> cells s1 \<noteq> {||} \<and> cells s2 \<noteq> {||} \<and> cells s1 |\<subseteq>| cells s2"
  then show "Sentence (cells s2 |-| cells s1) (count s2 - count s1) \<in> set (K @ fst (subset_inference K u))"
    by (intro candidate_derived) simp_all
next
  let ?K2 = "map (strip (fst (gather (knowledge ai))) (snd (gather (knowledge ai)))) (knowledge ai)"
  fix s1 s2
  assume "s1 \<in> set ?K2" "s2 \<in> set ?K2"
    and h: "s1 \<noteq> s2 \<and> cells s1 \<noteq> {||} \<and> cells s2 \<noteq> {||} \<and> cells s1 |\<subseteq>| cells s2
        \<and> cells s2 |-| cells s1 \<noteq> {||}"
  then have "Sentence (cells s2 |-| cells s1) (count s2 - count s1) \<in> set (?K2 @ fst (subset_inference ?K2 u))" for u
    by (intro candidate_derived) simp_all
  moreover have "cells (Sentence (cells s2 |-| cells s1) (count s2 - count s1)) \<noteq> {||}"
    using h by (simp add: Sentence_def)
  ultimately show "Sentence (cells s2 |-| cells s1) (count s2 - count s1) \<in> set (knowledge (snd (update_round ai)))"
    unfolding round_knowledge Let_def by simp
next
  assume "A \<noteq> B \<and> A \<noteq> C \<and> B \<noteq> C \<and>
       (knowledge ai = [\<lparr>cells = {|A, B, C|}, count = 2\<rparr>, \<lparr>cells = {|A, B|}, count = 1\<rparr>]
        \<or> knowledge ai = [\<lparr>cells = {|A, B|}, count = 1\<rparr>, \<lparr>cells = {|A, B, C|}, count = 2\<rparr>])"
  then have "update_knowledge ai =
     Some (ai\<lparr>mines := finsert C (mines ai),
              knowledge := [\<lparr>cells = {|A, B|}, count = 1\<rparr>, \<lparr>cells = {|A, B|}, count = 1\<rparr>]\<rparr>)"
    by (intro scenario_mine) simp_all
  then show "\<exists>ai'. update_knowledge ai = Some ai' \<and> C |\<in>| mines ai'" by simp
qed

text \<open>The scenario with the cells \<open>(0, 0)\<close>, \<open>(0, 1)\<close> and \<open>(0, 2)\<close>.\<close>

theorem subset_subtraction_witness:
  "Sentence {|(0, 2)|} 1 \<in> set (knowledge three_two @ fst (subset_inference (knowledge three_two) False))
   \<and> Sentence {|(0, 2)|} 1 \<in> set (knowledge (snd (update_round three_two)))
   \<and> (\<exists>ai'. update_knowledge three_two = Some ai' \<and> (0, 2) |\<in>| mines ai')"
proof -
  let ?s = "\<lparr>cells = {|(0, 0), (0, 1), (0, 2)|}, count = 2\<rparr>"
  let ?t = "\<lparr>cells = {|(0, 0), (0, 1)|}, count = 1\<rparr>"
  note T = subset_subtraction [of "knowledge three_two" False three_two "(0, 0)" "(0, 1)" "(0, 2)"]
  have k: "knowledge three_two = [?s, ?t]" by (simp add: three_two_def)
  have g: "gather (knowledge three_two) = ({||}, {||})"
    unfolding k by code_simp
  have m: "map (strip {||} {||}) (knowledge three_two) = [?s, ?t]"
    by (simp add: k strip_none)
  have d: "{|(0, 0), (0, 1), (0, 2)|} |-| {|(0, 0), (0, 1)|} = {|(0::int, 2::int)|}" by code_simp
  have e: "?t \<noteq> ?s \<and> cells ?t \<noteq> {||} \<and> cells ?s \<noteq> {||} \<and> cells ?t |\<subseteq>| cells ?s \<and> cells ?s |-| cells ?t \<noteq> {||}"
    by (simp add: d)
  have 1: "Sentence (cells ?s |-| cells ?t) (count ?s - count ?t) \<in> set (knowledge three_two @ fst (subset_inference (knowledge three_two) False))"
    using T e k by simp
  have 2: "Sentence (cells ?s |-| cells ?t) (count ?s - count ?t) \<in> set (knowledge (snd (update_round three_two)))"
    using T e unfolding g fst_conv snd_conv m by simp
  have 3: "\<exists>ai'. update_knowledge three_two = Some ai' \<and> (0, 2) |\<in>| mines ai'"
    using T k by simp
  from 1 2 3 show ?thesis by (simp add: d)
qed

subsection \<open>The direct rules\<close>

lemma update_knowledge_first:
  assumes "update_knowledge ai = Some ai'"
  shows "(fst (update_round ai) \<and> update_knowledge (snd (update_round ai)) = Some ai')
       \<or> (\<not> fst (update_round ai) \<and> snd (update_round ai) = ai')"
proof -
  obtain u a where r: "update_round ai = (u, a)" by (cases "update_round ai")
  have "(if u then update_knowledge a else Some a) = Some ai'"
    using assms by (subst (asm) update_knowledge.simps) (simp add: r)
  then show ?thesis by (cases u) (simp_all add: r)
qed

lemma round_grows:
  "safes ai |\<subseteq>| safes (snd (update_round ai)) \<and> mines ai |\<subseteq>| mines (snd (update_round ai))"
  by (simp add: update_round_eq Let_def)

lemma gathered_contains:
  "s \<in> set K \<Longrightarrow> f s |\<subseteq>| ffUnion (fset_of_list (map f K))"
  by (induction K) auto

lemma round_marks_known:
  assumes "s \<in> set (knowledge ai)"
  shows "known_safes s |\<subseteq>| safes (snd (update_round ai)) \<and> known_mines s |\<subseteq>| mines (snd (update_round ai))"
  using gathered_contains [OF assms, of known_safes] gathered_contains [OF assms, of known_mines]
  by (auto simp: update_round_eq Let_def)

lemma known_stay:
  assumes ret: "update_knowledge ai = Some ai'" and s: "s \<in> set (knowledge ai)"
  shows "known_safes s |\<subseteq>| safes ai' \<and> known_mines s |\<subseteq>| mines ai'"
proof -
  let ?I = "\<lambda>a. known_safes s |\<subseteq>| safes a \<and> known_mines s |\<subseteq>| mines a"
  have step: "?I (snd (update_round a))" if "?I a" for a
    using that round_grows [of a] by blast
  have first: "?I (snd (update_round ai))" using round_marks_known [OF s] .
  from update_knowledge_first [OF ret] show ?thesis
  proof
    assume "fst (update_round ai) \<and> update_knowledge (snd (update_round ai)) = Some ai'"
    then have "update_knowledge (snd (update_round ai)) = Some ai'" ..
    from update_knowledge_invariant [where I = ?I, OF this first step] show ?thesis by simp
  next
    assume "\<not> fst (update_round ai) \<and> snd (update_round ai) = ai'"
    then show ?thesis using first by auto
  qed
qed

lemma zero_count_off_board: "true_in B s \<Longrightarrow> count s = 0 \<Longrightarrow> cells s |\<inter>| B = {||}"
  using known_safes_true [of B s] by (simp add: known_safes_def)

lemma full_count_on_board:
  "true_in B s \<Longrightarrow> count s = int (fcard (cells s)) \<Longrightarrow> 0 < count s \<Longrightarrow> cells s |\<subseteq>| B"
proof -
  assume t: "true_in B s" and "count s = int (fcard (cells s))" "0 < count s"
  then have "known_mines s = cells s" by (simp add: known_mines_def)
  with known_mines_true [OF t] show ?thesis by simp
qed

text \<open>
  C2, as amended. When \<open>update_knowledge\<close> returns, every cell of a sentence that was
  stored with count 0 is in \<open>safes\<close>, and every cell of a sentence that was stored with
  a count equal to the size of its cell set and positive is in \<open>mines\<close>. When the
  knowledge base is consistent with a placement of mines, \<open>update_knowledge\<close> does
  return, and the former cells are not in \<open>mines\<close> and the latter not in \<open>safes\<close>.
\<close>

theorem direct_rules:
  "(update_knowledge ai = Some ai' \<longrightarrow>
      (\<forall>s\<in>set (knowledge ai).
         (count s = 0 \<longrightarrow> cells s |\<subseteq>| safes ai') \<and>
         (count s = int (fcard (cells s)) \<and> 0 < count s \<longrightarrow> cells s |\<subseteq>| mines ai')))
   \<and> (consistent B ai \<longrightarrow>
      (\<exists>a. update_knowledge ai = Some a \<and>
         (\<forall>s\<in>set (knowledge ai).
            (count s = 0 \<longrightarrow> cells s |\<subseteq>| safes a \<and> cells s |\<inter>| mines a = {||}) \<and>
            (count s = int (fcard (cells s)) \<and> 0 < count s \<longrightarrow>
               cells s |\<subseteq>| mines a \<and> cells s |\<inter>| safes a = {||}))))"
proof (intro conjI impI)
  assume ret: "update_knowledge ai = Some ai'"
  show "\<forall>s\<in>set (knowledge ai).
         (count s = 0 \<longrightarrow> cells s |\<subseteq>| safes ai') \<and>
         (count s = int (fcard (cells s)) \<and> 0 < count s \<longrightarrow> cells s |\<subseteq>| mines ai')"
  proof
    fix s assume "s \<in> set (knowledge ai)"
    from known_stay [OF ret this]
    show "(count s = 0 \<longrightarrow> cells s |\<subseteq>| safes ai') \<and>
         (count s = int (fcard (cells s)) \<and> 0 < count s \<longrightarrow> cells s |\<subseteq>| mines ai')"
      by (simp add: known_safes_def known_mines_def split: if_splits)
  qed
next
  assume c: "consistent B ai"
  then obtain a where ret: "update_knowledge ai = Some a"
    using update_knowledge_terminates by blast
  have ca: "consistent B a" using ret c by (rule consistent_update_knowledge)
  then have sa: "safes a |\<inter>| B = {||}" and ma: "mines a |\<subseteq>| B"
    by (simp_all add: consistent_def)
  have "(count s = 0 \<longrightarrow> cells s |\<subseteq>| safes a \<and> cells s |\<inter>| mines a = {||}) \<and>
        (count s = int (fcard (cells s)) \<and> 0 < count s \<longrightarrow>
           cells s |\<subseteq>| mines a \<and> cells s |\<inter>| safes a = {||})"
    if s: "s \<in> set (knowledge ai)" for s
  proof -
    have t: "true_in B s" using c s by (simp add: consistent_def list_all_iff)
    have k: "known_safes s |\<subseteq>| safes a" "known_mines s |\<subseteq>| mines a"
      using known_stay [OF ret s] by simp_all
    have 1: "cells s |\<subseteq>| safes a \<and> cells s |\<inter>| mines a = {||}" if z: "count s = 0"
    proof -
      have "cells s |\<inter>| B = {||}" using t z by (rule zero_count_off_board)
      then have "cells s |\<inter>| mines a = {||}" using ma by blast
      moreover have "known_safes s = cells s" using z by (simp add: known_safes_def)
      ultimately show ?thesis using k(1) by simp
    qed
    have 2: "cells s |\<subseteq>| mines a \<and> cells s |\<inter>| safes a = {||}"
      if f: "count s = int (fcard (cells s))" "0 < count s"
    proof -
      have "cells s |\<subseteq>| B" using t f by (rule full_count_on_board)
      then have "cells s |\<inter>| safes a = {||}" using sa by blast
      moreover have "known_mines s = cells s" using f by (simp add: known_mines_def)
      ultimately show ?thesis using k(2) by simp
    qed
    from 1 2 show ?thesis by blast
  qed
  then show "\<exists>a. update_knowledge ai = Some a \<and>
         (\<forall>s\<in>set (knowledge ai).
            (count s = 0 \<longrightarrow> cells s |\<subseteq>| safes a \<and> cells s |\<inter>| mines a = {||}) \<and>
            (count s = int (fcard (cells s)) \<and> 0 < count s \<longrightarrow>
               cells s |\<subseteq>| mines a \<and> cells s |\<inter>| safes a = {||}))"
    using ret by blast
qed

text \<open>A knowledge base consistent with the single mine \<open>(1, 0)\<close>: the first sentence
  has count 0, the second a count equal to the size of its cell set.\<close>

theorem direct_rules_witness:
  "consistent {|(1, 0)|} pending \<and>
   (\<exists>a. update_knowledge pending = Some a \<and>
      {|(0, 2), (1, 2)|} |\<subseteq>| safes a \<and> {|(0, 2), (1, 2)|} |\<inter>| mines a = {||} \<and>
      {|(1, 0)|} |\<subseteq>| mines a \<and> {|(1, 0)|} |\<inter>| safes a = {||})"
proof -
  have c: "consistent {|(1, 0)|} pending" by code_simp
  have k: "knowledge pending = [\<lparr>cells = {|(0, 2), (1, 2)|}, count = 0\<rparr>, \<lparr>cells = {|(1, 0)|}, count = 1\<rparr>,
                   \<lparr>cells = {|(1, 0), (1, 1), (1, 2)|}, count = 1\<rparr>]"
    by (simp add: pending_def)
  have f: "fcard {|(1::int, 0::int)|} = 1" by code_simp
  from direct_rules [of pending _ "{|(1, 0)|}"] c
  obtain a where a: "update_knowledge pending = Some a"
    and "\<forall>s\<in>set (knowledge pending).
            (count s = 0 \<longrightarrow> cells s |\<subseteq>| safes a \<and> cells s |\<inter>| mines a = {||}) \<and>
            (count s = int (fcard (cells s)) \<and> 0 < count s \<longrightarrow>
               cells s |\<subseteq>| mines a \<and> cells s |\<inter>| safes a = {||})"
    by blast
  then have "{|(0, 2), (1, 2)|} |\<subseteq>| safes a \<and> {|(0, 2), (1, 2)|} |\<inter>| mines a = {||} \<and>
      {|(1, 0)|} |\<subseteq>| mines a \<and> {|(1, 0)|} |\<inter>| safes a = {||}"
    unfolding k by (simp add: f)
  with a c show ?thesis by blast
qed

text \<open>
  The claim as it stands fails on a knowledge base that no placement of mines
  satisfies. On a 2 by 2 grid the observations \<open>(0, 0)\<close> with count 1 and \<open>(0, 1)\<close>
  with count 1, followed by \<open>(1, 0)\<close> with count 0, leave the sentences \<open>({(1, 1)}, 1)\<close>
  and \<open>({(1, 1)}, 0)\<close> for \<open>update_knowledge\<close>, which returns with \<open>(1, 1)\<close> both
  in \<open>safes\<close> and in \<open>mines\<close>.
\<close>

theorem direct_rules_counterexample:
  "Option.bind (add_knowledge (MinesweeperAI 2 2) (0, 0) 1) (\<lambda>a. add_knowledge a (0, 1) 1) = Some two_seen
   \<and> add_sentence two_seen (1, 0) 0 = contradictory
   \<and> \<lparr>cells = {|(1, 1)|}, count = 0\<rparr> \<in> set (knowledge contradictory)
   \<and> \<lparr>cells = {|(1, 1)|}, count = 1\<rparr> \<in> set (knowledge contradictory)
   \<and> update_knowledge contradictory = Some both_marked
   \<and> (1, 1) |\<in>| mines both_marked \<and> (1, 1) |\<in>| safes both_marked"
  by code_simp

subsection \<open>Counts out of range\<close>

lemma out_of_range_yields_nothing:
  assumes "out_of_range s"
  shows "known_safes s = {||}" and "known_mines s = {||}"
  using assms by (auto simp: out_of_range_def known_safes_def known_mines_def)

lemma fcard_split: "fcard (A |-| M) + fcard (A |\<inter>| M) = fcard A"
proof -
  have "A = (A |-| M) |\<union>| (A |\<inter>| M)" by auto
  moreover have "(A |-| M) |\<inter>| (A |\<inter>| M) = {||}" by auto
  ultimately show ?thesis by (metis fcard_funion_disjoint)
qed

lemma out_of_range_strip:
  assumes "out_of_range s"
  shows "out_of_range (strip S M s)"
proof -
  let ?A = "cells s |-| S"
  have 1: "fcard (?A |-| M) + fcard (?A |\<inter>| M) = fcard ?A" by (rule fcard_split)
  have 2: "fcard ?A \<le> fcard (cells s)" by (rule fcard_mono) auto
  from assms have "count s < 0 \<or> int (fcard (cells s)) < count s" by (simp add: out_of_range_def)
  then have "count s - int (fcard (?A |\<inter>| M)) < 0
      \<or> int (fcard (?A |-| M)) < count s - int (fcard (?A |\<inter>| M))"
    using 1 2 by linarith
  then show ?thesis by (simp add: out_of_range_def strip_def)
qed

lemma gathered_in_round:
  "safes (snd (update_round ai)) = safes ai |\<union>| fst (gather (knowledge ai))
   \<and> mines (snd (update_round ai)) = mines ai |\<union>| snd (gather (knowledge ai))"
  by (simp add: update_round_eq gather_eq Let_def)

lemma stripped_in_round:
  assumes "s \<in> set (knowledge ai)"
    and "cells (strip (fst (gather (knowledge ai))) (snd (gather (knowledge ai))) s) \<noteq> {||}"
  shows "strip (fst (gather (knowledge ai))) (snd (gather (knowledge ai))) s
           \<in> set (knowledge (snd (update_round ai)))"
  using assms by (simp add: update_round_eq gather_eq Let_def)

lemma remnant_round:
  assumes "remnant s a s'"
  shows "\<exists>s''. remnant s (snd (update_round a)) s''"
proof -
  let ?sf = "fst (gather (knowledge a))" and ?mn = "snd (gather (knowledge a))"
  let ?a' = "snd (update_round a)"
  have g: "safes ?a' = safes a |\<union>| ?sf" "mines ?a' = mines a |\<union>| ?mn"
    using gathered_in_round [of a] by simp_all
  from assms have o: "out_of_range s'" and sub: "cells s' |\<subseteq>| cells s"
    and cov: "cells s |\<subseteq>| cells s' |\<union>| safes a |\<union>| mines a"
    and st: "s' \<in> set (knowledge a) \<or> cells s' = {||}"
    by (simp_all add: remnant_def)
  from st show ?thesis
  proof
    assume gone: "cells s' = {||}"
    have "cells s |\<subseteq>| cells s' |\<union>| safes ?a' |\<union>| mines ?a'"
      using cov unfolding g by blast
    then have "remnant s ?a' s'" using o sub gone by (simp add: remnant_def)
    then show ?thesis ..
  next
    assume mem: "s' \<in> set (knowledge a)"
    let ?t = "strip ?sf ?mn s'"
    have ct: "cells ?t = cells s' |-| ?sf |-| ?mn" by (simp add: strip_def)
    have 1: "out_of_range ?t" using o by (rule out_of_range_strip)
    have 2: "cells ?t |\<subseteq>| cells s" using sub unfolding ct by blast
    have 3: "cells s |\<subseteq>| cells ?t |\<union>| safes ?a' |\<union>| mines ?a'"
      using cov unfolding ct g by blast
    have 4: "?t \<in> set (knowledge ?a') \<or> cells ?t = {||}"
      using stripped_in_round [OF mem] by blast
    from 1 2 3 4 have "remnant s ?a' ?t" unfolding remnant_def by blast
    then show ?thesis ..
  qed
qed

lemma remnant_on_return:
  assumes ret: "update_knowledge ai = Some ai'" and s: "s \<in> set (knowledge ai)"
    and o: "out_of_range s"
  shows "(\<exists>s'\<in>set (knowledge ai'). out_of_range s' \<and> cells s' |\<subseteq>| cells s)
         \<or> cells s |\<subseteq>| safes ai' |\<union>| mines ai'"
proof -
  have init: "\<exists>s'. remnant s ai s'"
  proof
    have "cells s |\<subseteq>| cells s |\<union>| safes ai |\<union>| mines ai" by blast
    then show "remnant s ai s" using s o by (simp add: remnant_def)
  qed
  have step: "\<exists>s'. remnant s (snd (update_round a)) s'" if "\<exists>s'. remnant s a s'" for a
    using that remnant_round by blast
  from update_knowledge_invariant [where I = "\<lambda>a. \<exists>s'. remnant s a s'", OF ret init step]
  obtain s' where r: "remnant s ai' s'" by blast
  then have st: "s' \<in> set (knowledge ai') \<or> cells s' = {||}" by (simp add: remnant_def)
  from st show ?thesis
  proof
    assume "s' \<in> set (knowledge ai')"
    then show ?thesis using r unfolding remnant_def by blast
  next
    assume "cells s' = {||}"
    then have "cells s |\<subseteq>| safes ai' |\<union>| mines ai'" using r by (simp add: remnant_def)
    then show ?thesis ..
  qed
qed

lemma single_out_of_range_round:
  assumes k: "knowledge ai = [s]" and o: "out_of_range s"
  shows "update_round ai = (False, ai\<lparr>knowledge := filter (\<lambda>t. cells t \<noteq> {||}) [s]\<rparr>)"
proof -
  have g: "gather [s] = ({||}, {||})"
    using out_of_range_yields_nothing [OF o] by (simp add: gather_def)
  have i: "subset_inference [s] u = ([], u)" for u
    by (simp add: subset_inference_def infer_step_def)
  have "strip {||} {||} s = s" by (rule strip_none)
  then show ?thesis
    using k g i by (simp add: update_round_def mark_safes_eq mark_mines_eq Let_def)
qed

lemma lone_out_of_range_returns:
  assumes k: "knowledge ai = []" and o: "out_of_range (new_sentence ai c n)"
  shows "add_knowledge ai c n =
     Some ((record_move c ai)\<lparr>knowledge := filter (\<lambda>t. cells t \<noteq> {||}) [new_sentence ai c n]\<rparr>)"
proof -
  let ?s = "new_sentence ai c n"
  have a: "add_sentence ai c n = (record_move c ai)\<lparr>knowledge := [?s]\<rparr>"
    using k by (simp add: add_sentence_def record_move_def mark_safe_def append_if_new_def Let_def)
  have "update_round ((record_move c ai)\<lparr>knowledge := [?s]\<rparr>) =
      (False, (record_move c ai)\<lparr>knowledge := [?s]\<rparr>\<lparr>knowledge := filter (\<lambda>t. cells t \<noteq> {||}) [?s]\<rparr>)"
    by (rule single_out_of_range_round [OF _ o]) simp
  then have "update_knowledge ((record_move c ai)\<lparr>knowledge := [?s]\<rparr>) =
      Some ((record_move c ai)\<lparr>knowledge := filter (\<lambda>t. cells t \<noteq> {||}) [?s]\<rparr>)"
    by (subst update_knowledge.simps) simp
  then show ?thesis by (simp add: add_knowledge_def a)
qed

lemma clashing_never_returns:
  "add_knowledge (MinesweeperAI 1 3) (0, 0) 3 = Some clashing_before
   \<and> add_knowledge clashing_before (0, 2) 5 = None"
proof -
  have 1: "add_knowledge (MinesweeperAI 1 3) (0, 0) 3 = Some clashing_before" by code_simp
  have 2: "add_sentence clashing_before (0, 2) 5 = clashing" by code_simp
  have "update_round clashing = (True, clashing)" by code_simp
  then have "update_knowledge clashing = None" by (rule update_knowledge_diverges)
  with 1 2 show ?thesis by (simp add: add_knowledge_def)
qed

text \<open>
  C3, as amended. A count out of range is never surfaced; neither \<open>add_knowledge\<close>
  nor \<open>update_knowledge\<close> has an error outcome. An observation whose sentence has a
  negative count, or a count above the size of its cell set, is stored like any other:
  when nothing else is stored, as on a fresh agent, the call returns normally and
  keeps the sentence (it is dropped only if it has no cells). In every round a stored
  sentence out of range yields no known safes and no known mines, is still out of
  range after the marking of the round, and stays in the knowledge unless its cell
  set has become empty. So when \<open>update_knowledge\<close>, or the \<open>add_knowledge\<close> that
  stored the sentence, returns, either a sentence out of range over some of the same
  cells is still stored, or every cell of the sentence has been marked safe or mine.
  The call can also fail to return: on a 1 by 3 grid the observation of \<open>(0, 0)\<close> with
  count 3 returns, and the following one of \<open>(0, 2)\<close> with count 5 never does.
\<close>

theorem out_of_range_not_surfaced:
  "(knowledge ai = [] \<and> out_of_range (new_sentence ai c n) \<longrightarrow>
      add_knowledge ai c n =
        Some ((record_move c ai)\<lparr>knowledge := filter (\<lambda>t. cells t \<noteq> {||}) [new_sentence ai c n]\<rparr>))
   \<and> (\<forall>s\<in>set (knowledge ai). out_of_range s \<longrightarrow>
        known_safes s = {||} \<and> known_mines s = {||}
        \<and> out_of_range (strip (fst (gather (knowledge ai))) (snd (gather (knowledge ai))) s)
        \<and> (cells (strip (fst (gather (knowledge ai))) (snd (gather (knowledge ai))) s) \<noteq> {||} \<longrightarrow>
             strip (fst (gather (knowledge ai))) (snd (gather (knowledge ai))) s
               \<in> set (knowledge (snd (update_round ai)))))
   \<and> (update_knowledge ai = Some ai' \<longrightarrow>
        (\<forall>s\<in>set (knowledge ai). out_of_range s \<longrightarrow>
           (\<exists>s'\<in>set (knowledge ai'). out_of_range s' \<and> cells s' |\<subseteq>| cells s)
           \<or> cells s |\<subseteq>| safes ai' |\<union>| mines ai'))
   \<and> (add_knowledge ai c n = Some ai' \<and> out_of_range (new_sentence ai c n) \<longrightarrow>
        (\<exists>s'\<in>set (knowledge ai'). out_of_range s' \<and> cells s' |\<subseteq>| cells (new_sentence ai c n))
        \<or> cells (new_sentence ai c n) |\<subseteq>| safes ai' |\<union>| mines ai')
   \<and> add_knowledge (MinesweeperAI 1 3) (0, 0) 3 = Some clashing_before
   \<and> add_knowledge clashing_before (0, 2) 5 = None"
proof (intro conjI impI ballI)
  assume "knowledge ai = [] \<and> out_of_range (new_sentence ai c n)"
  then show "add_knowledge ai c n =
        Some ((record_move c ai)\<lparr>knowledge := filter (\<lambda>t. cells t \<noteq> {||}) [new_sentence ai c n]\<rparr>)"
    by (intro lone_out_of_range_returns) simp_all
next
  fix s assume "out_of_range s"
  then show "known_safes s = {||}" and "known_mines s = {||}"
    by (rule out_of_range_yields_nothing)+
next
  fix s assume "out_of_range s"
  then show "out_of_range (strip (fst (gather (knowledge ai))) (snd (gather (knowledge ai))) s)"
    by (rule out_of_range_strip)
next
  fix s
  assume "s \<in> set (knowledge ai)"
    and "cells (strip (fst (gather (knowledge ai))) (snd (gather (knowledge ai))) s) \<noteq> {||}"
  then show "strip (fst (gather (knowledge ai))) (snd (gather (knowledge ai))) s
               \<in> set (knowledge (snd (update_round ai)))"
    by (rule stripped_in_round)
next
  fix s
  assume "update_knowledge ai = Some ai'" "s \<in> set (knowledge ai)" "out_of_range s"
  then show "(\<exists>s'\<in>set (knowledge ai'). out_of_range s' \<and> cells s' |\<subseteq>| cells s)
           \<or> cells s |\<subseteq>| safes ai' |\<union>| mines ai'"
    by (rule remnant_on_return)
next
  assume h: "add_knowledge ai c n = Some ai' \<and> out_of_range (new_sentence ai c n)"
  then have "update_knowledge (add_sentence ai c n) = Some ai'" by (simp add: add_knowledge_def)
  moreover have "new_sentence ai c n \<in> set (knowledge (add_sentence ai c n))"
    by (simp add: add_sentence_def append_if_new_def Let_def)
  moreover have "out_of_range (new_sentence ai c n)" using h ..
  ultimately show "(\<exists>s'\<in>set (knowledge ai'). out_of_range s' \<and> cells s' |\<subseteq>| cells (new_sentence ai c n))
        \<or> cells (new_sentence ai c n) |\<subseteq>| safes ai' |\<union>| mines ai'"
    by (rule remnant_on_return)
next
  show "add_knowledge (MinesweeperAI 1 3) (0, 0) 3 = Some clashing_before"
    using clashing_never_returns ..
  show "add_knowledge clashing_before (0, 2) 5 = None"
    using clashing_never_returns ..
qed

text \<open>The first observation on a 1 by 2 grid, with count 5, and a further call of
  \<open>update_knowledge\<close> on the state it leaves.\<close>

theorem out_of_range_not_surfaced_witness:
  "out_of_range (new_sentence (MinesweeperAI 1 2) (0, 0) 5)
   \<and> add_knowledge (MinesweeperAI 1 2) (0, 0) 5 = Some overcounted
   \<and> out_of_range \<lparr>cells = {|(0, 1)|}, count = 5\<rparr>
   \<and> \<lparr>cells = {|(0, 1)|}, count = 5\<rparr> \<in> set (knowledge (snd (update_round overcounted)))
   \<and> update_knowledge overcounted = Some overcounted
   \<and> (\<exists>s'\<in>set (knowledge overcounted). out_of_range s' \<and> cells s' |\<subseteq>| {|(0, 1)|})"
proof -
  let ?s = "\<lparr>cells = {|(0::int, 1::int)|}, count = 5\<rparr>"
  note first = out_of_range_not_surfaced [of "MinesweeperAI 1 2" "(0, 0)" 5 overcounted]
  note later = out_of_range_not_surfaced [of overcounted "(0, 0)" 5 overcounted]
  have k: "knowledge (MinesweeperAI 1 2) = []" by (simp add: MinesweeperAI_def)
  have o: "out_of_range (new_sentence (MinesweeperAI 1 2) (0, 0) 5)" by code_simp
  have e: "(record_move (0, 0) (MinesweeperAI 1 2))
        \<lparr>knowledge := filter (\<lambda>t. cells t \<noteq> {||}) [new_sentence (MinesweeperAI 1 2) (0, 0) 5]\<rparr>
      = overcounted" by code_simp
  from first k o have 1: "add_knowledge (MinesweeperAI 1 2) (0, 0) 5 = Some overcounted"
    unfolding e by blast
  have m: "?s \<in> set (knowledge overcounted)" by (simp add: overcounted_def)
  have os: "out_of_range ?s" by code_simp
  have g: "gather (knowledge overcounted) = ({||}, {||})" by code_simp
  have st: "strip {||} {||} ?s = ?s" by (rule strip_none)
  have ne: "cells ?s \<noteq> {||}" by simp
  from later m os have "cells (strip (fst (gather (knowledge overcounted))) (snd (gather (knowledge overcounted))) ?s) \<noteq> {||} \<longrightarrow>
      strip (fst (gather (knowledge overcounted))) (snd (gather (knowledge overcounted))) ?s
        \<in> set (knowledge (snd (update_round overcounted)))"
    by blast
  then have 2: "?s \<in> set (knowledge (snd (update_round overcounted)))"
    unfolding g fst_conv snd_conv st using ne by blast
  have 3: "update_knowledge overcounted = Some overcounted" by code_simp
  have n: "\<not> cells ?s |\<subseteq>| safes overcounted |\<union>| mines overcounted" by code_simp
  from later 3 m os have "(\<exists>s'\<in>set (knowledge overcounted). out_of_range s' \<and> cells s' |\<subseteq>| cells ?s)
      \<or> cells ?s |\<subseteq>| safes overcounted |\<union>| mines overcounted"
    by blast
  with n have 4: "\<exists>s'\<in>set (knowledge overcounted). out_of_range s' \<and> cells s' |\<subseteq>| {|(0, 1)|}"
    by simp
  from o 1 os 2 3 4 show ?thesis by blast
qed

text \<open>
  The claim as it stands fails: on a 1 by 2 grid the observation of \<open>(0, 0)\<close> with
  count 5 (its only neighbour cannot hold five mines) and the one with count \<open>-1\<close>
  both return normally, and the sentence out of range is in the knowledge afterwards.
\<close>

theorem inconsistent_count_counterexample:
  "add_knowledge (MinesweeperAI 1 2) (0, 0) 5 = Some overcounted
   \<and> knowledge overcounted = [\<lparr>cells = {|(0, 1)|}, count = 5\<rparr>]
   \<and> add_knowledge (MinesweeperAI 1 2) (0, 0) (- 1) = Some undercounted
   \<and> knowledge undercounted = [\<lparr>cells = {|(0, 1)|}, count = - 1\<rparr>]"
  by code_simp

subsection \<open>Disjointness, and duplicates\<close>

text \<open>
  C4. Every sequence of observations that keeps the driver's contract (each probed
  cell is a cell of the board that holds no mine, and the count reported is the
  board's own count of the mines around it) runs to completion from the initial agent,
  and in the state it leaves \<open>safes\<close> and \<open>mines\<close> are disjoint.
\<close>

theorem safes_mines_disjoint:
  assumes "wf_board g" and "list_all (legal_probe g) cs"
  shows "\<exists>ai. observe_all g cs (MinesweeperAI (board_height g) (board_width g)) = Some ai
           \<and> safes ai |\<inter>| mines ai = {||}"
proof -
  have "consistent (board_mines g) (MinesweeperAI (board_height g) (board_width g))"
    by (rule consistent_init)
  moreover have "height (MinesweeperAI (board_height g) (board_width g)) = board_height g"
    "width (MinesweeperAI (board_height g) (board_width g)) = board_width g"
    by (simp_all add: MinesweeperAI_def)
  ultimately obtain ai where
    "observe_all g cs (MinesweeperAI (board_height g) (board_width g)) = Some ai"
    "consistent (board_mines g) ai"
    using observe_all_consistent [OF assms(2)] by blast
  then show ?thesis using consistent_disjoint by blast
qed

text \<open>Two probes on a 2 by 3 board whose only mine is at \<open>(1, 0)\<close>.\<close>

theorem safes_mines_disjoint_witness:
  "wf_board one_mine_board \<and> list_all (legal_probe one_mine_board) [(0, 1), (0, 0)]
   \<and> (\<exists>ai. observe_all one_mine_board [(0, 1), (0, 0)] (MinesweeperAI 2 3) = Some ai
           \<and> safes ai |\<inter>| mines ai = {||})"
proof -
  have w: "wf_board one_mine_board" by code_simp
  have l: "list_all (legal_probe one_mine_board) [(0, 1), (0, 0)]" by code_simp
  have "board_height one_mine_board = 2" "board_width one_mine_board = 3"
    by (simp_all add: one_mine_board_def)
  with safes_mines_disjoint [OF w l] w l show ?thesis by simp
qed

lemma append_if_new_distinct: "distinct K \<Longrightarrow> distinct (append_if_new s K)"
  by (simp add: append_if_new_def)

lemma append_if_new_present: "s \<in> set K \<Longrightarrow> append_if_new s K = K"
  by (simp add: append_if_new_def)

lemma new_inferences_fresh: "set (fst (subset_inference K u)) \<inter> set K = {}"
  by (auto simp: subset_inference_set)

text \<open>
  C9, as amended. Duplicates are refused at insertion only: \<open>add_knowledge\<close> appends
  the new sentence unless an equal sentence is stored, so that a knowledge without
  duplicates stays so, and the sentences that a round derives are pairwise different
  and different from every stored sentence. Sentences that become equal afterwards,
  when marked cells are removed from them, are both kept.
\<close>

theorem duplicates_refused_at_insertion:
  "(distinct K \<longrightarrow> distinct (append_if_new s K))
   \<and> (s \<in> set K \<longrightarrow> append_if_new s K = K)
   \<and> distinct (fst (subset_inference K u))
   \<and> set (fst (subset_inference K u)) \<inter> set K = {}"
  using append_if_new_distinct append_if_new_present new_inferences_fresh subset_inference_distinct
  by blast

theorem duplicates_refused_witness:
  "distinct [\<lparr>cells = {|(1, 0), (1, 1)|}, count = 1\<rparr>]
   \<and> append_if_new \<lparr>cells = {|(1, 0), (1, 1)|}, count = 1\<rparr> [\<lparr>cells = {|(1, 0), (1, 1)|}, count = 1\<rparr>]
       = [\<lparr>cells = {|(1, 0), (1, 1)|}, count = 1\<rparr>]
   \<and> distinct (append_if_new \<lparr>cells = {|(1, 0), (1, 1)|}, count = 1\<rparr> [\<lparr>cells = {|(1, 0), (1, 1)|}, count = 1\<rparr>])"
  using duplicates_refused_at_insertion
    [of "[\<lparr>cells = {|(1, 0), (1, 1)|}, count = 1\<rparr>]" "\<lparr>cells = {|(1, 0), (1, 1)|}, count = 1\<rparr>"]
  by simp

text \<open>
  The claim as it stands fails under the driver's contract. On the 2 by 3 board whose
  only mine is at \<open>(1, 0)\<close>, the probes of \<open>(0, 1)\<close> and \<open>(0, 0)\<close> both report 1; the
  second leaves \<open>({(0, 2), (1, 0), (1, 1), (1, 2)}, 1)\<close> and \<open>({(1, 0), (1, 1)}, 1)\<close>, the
  subset rule derives \<open>({(0, 2), (1, 2)}, 0)\<close>, and marking these two cells safe turns
  the first sentence into a second copy of \<open>({(1, 0), (1, 1)}, 1)\<close>, which stays.
\<close>

theorem duplicates_counterexample:
  "list_all (legal_probe one_mine_board) [(0, 1), (0, 0)]
   \<and> observe_all one_mine_board [(0, 1), (0, 0)] (MinesweeperAI 2 3) = Some twin_sentences
   \<and> knowledge twin_sentences =
       [\<lparr>cells = {|(1, 0), (1, 1)|}, count = 1\<rparr>, \<lparr>cells = {|(1, 0), (1, 1)|}, count = 1\<rparr>]
   \<and> \<not> distinct (knowledge twin_sentences)"
  by code_simp

subsection \<open>A second call of the loop\<close>

lemma cells_fix_count_iff:
  "cells_fix_count K \<longleftrightarrow> (\<forall>s\<in>set K. \<forall>t\<in>set K. cells s = cells t \<longrightarrow> s = t)"
proof -
  have "(cells s = cells t \<longrightarrow> count s = count t) \<longleftrightarrow> (cells s = cells t \<longrightarrow> s = t)"
    for s t :: sentence
  proof
    assume h: "cells s = cells t \<longrightarrow> count s = count t"
    show "cells s = cells t \<longrightarrow> s = t"
    proof
      assume "cells s = cells t"
      with h show "s = t" by (intro sentence.equality) simp_all
    qed
  next
    assume "cells s = cells t \<longrightarrow> s = t"
    then show "cells s = cells t \<longrightarrow> count s = count t" by (cases "cells s = cells t") simp_all
  qed
  then show ?thesis by (simp add: cells_fix_count_def list_all_iff)
qed

lemma consistent_fix_count:
  assumes "consistent B ai"
  shows "cells_fix_count (knowledge ai)"
  unfolding cells_fix_count_iff
proof (intro ballI impI)
  fix s t
  assume "s \<in> set (knowledge ai)" "t \<in> set (knowledge ai)" and c: "cells s = cells t"
  then have "true_in B s" "true_in B t"
    using assms by (simp_all add: consistent_def list_all_iff)
  then show "s = t" using c by (rule true_in_cells_eq)
qed

lemma last_round_again:
  assumes r: "update_round a = (False, ai')"
  shows "update_round ai' = (\<not> cells_fix_count (knowledge ai'), ai')"
proof -
  define K where "K = knowledge a"
  define sf where "sf = ffUnion (fset_of_list (map known_safes K))"
  define mn where "mn = ffUnion (fset_of_list (map known_mines K))"
  let ?ne = "\<lambda>s. cells s \<noteq> {||}"
  let ?K2 = "map (strip sf mn) K"
  define F where "F = (sf \<noteq> {||} \<or> mn \<noteq> {||} \<or> \<not> candidates (List.product ?K2 ?K2) \<subseteq> set ?K2)"
  define S where "S = a\<lparr>safes := safes a |\<union>| sf, mines := mines a |\<union>| mn,
         knowledge := filter ?ne (?K2 @ fst (subset_inference ?K2 (sf \<noteq> {||} \<or> mn \<noteq> {||})))\<rparr>"
  have "update_round a = (F, S)"
    unfolding update_round_eq Let_def sf_def mn_def K_def F_def S_def ..
  with r have "(F, S) = (False, ai')" by simp
  then have "F = False" and S: "S = ai'" by simp_all
  then have flag: "\<not> (sf \<noteq> {||} \<or> mn \<noteq> {||} \<or> \<not> candidates (List.product ?K2 ?K2) \<subseteq> set ?K2)"
    by (simp add: F_def)
  have st: "ai' = a\<lparr>safes := safes a |\<union>| sf, mines := mines a |\<union>| mn,
         knowledge := filter ?ne (?K2 @ fst (subset_inference ?K2 (sf \<noteq> {||} \<or> mn \<noteq> {||})))\<rparr>"
    unfolding S [symmetric] S_def ..
  from flag have e: "sf = {||}" "mn = {||}" by simp_all
  from flag have sub: "candidates (List.product K K) \<subseteq> set K"
    unfolding e map_strip_none by simp
  from st have a': "ai' = a\<lparr>knowledge := filter ?ne (K @ fst (subset_inference K False))\<rparr>"
    unfolding e map_strip_none by simp
  have "set (fst (subset_inference K False)) = {}"
    using sub by (simp add: subset_inference_set)
  then have K': "knowledge ai' = filter ?ne K" using a' by simp
  define K' where "K' = filter ?ne K"
  have sf': "ffUnion (fset_of_list (map known_safes K')) = {||}"
  proof -
    have "ffUnion (fset_of_list (map known_safes K')) |\<subseteq>| sf"
      unfolding sf_def K'_def by (rule ffunion_mono) auto
    then show ?thesis using e(1) by simp
  qed
  have mn': "ffUnion (fset_of_list (map known_mines K')) = {||}"
  proof -
    have "ffUnion (fset_of_list (map known_mines K')) |\<subseteq>| mn"
      unfolding mn_def K'_def by (rule ffunion_mono) auto
    then show ?thesis using e(2) by simp
  qed
  have inK: "n \<in> set K" if "n \<in> candidates (List.product K' K')" for n
  proof -
    from that have "n \<in> candidates (List.product K K)"
      by (auto simp: candidates_product K'_def)
    then show ?thesis using sub by blast
  qed
  have empties: "cells n = {||}" if "n \<in> set (fst (subset_inference K' u))" for n u
  proof (rule ccontr)
    assume "cells n \<noteq> {||}"
    moreover from that have c: "n \<in> candidates (List.product K' K')" and o: "n \<notin> set K'"
      by (simp_all add: subset_inference_set)
    ultimately have "n \<in> set K'" using inK [OF c] by (simp add: K'_def)
    with o show False ..
  qed
  have fe: "filter ?ne (fst (subset_inference K' u)) = []" for u
    using empties [of _ u] by (simp add: filter_empty_conv)
  have fk: "filter ?ne K' = K'" by (simp add: K'_def)
  have flag': "(\<not> candidates (List.product K' K') \<subseteq> set K') \<longleftrightarrow> \<not> cells_fix_count K'"
  proof -
    have "candidates (List.product K' K') \<subseteq> set K'" if fc: "cells_fix_count K'"
    proof
      fix n assume n: "n \<in> candidates (List.product K' K')"
      then obtain s1 s2 where s: "s1 \<in> set K'" "s2 \<in> set K'" "eligible s1 s2" "n = difference s1 s2"
        by (auto simp: candidates_product)
      have "cells s1 \<noteq> cells s2"
      proof
        assume "cells s1 = cells s2"
        then have "s1 = s2" using fc s(1,2) by (simp add: cells_fix_count_iff)
        then show False using s(3) by (simp add: eligible_def)
      qed
      then have "cells n \<noteq> {||}" using s(3,4) by (auto simp: eligible_def difference_def)
      then show "n \<in> set K'" using inK [OF n] by (simp add: K'_def)
    qed
    moreover have "cells_fix_count K'" if sub': "candidates (List.product K' K') \<subseteq> set K'"
      unfolding cells_fix_count_iff
    proof (intro ballI impI, rule ccontr)
      fix s t
      assume st: "s \<in> set K'" "t \<in> set K'" and c: "cells s = cells t" and ne: "s \<noteq> t"
      then have "eligible s t" by (simp add: eligible_def K'_def)
      then have "difference s t \<in> candidates (List.product K' K')"
        using st by (auto simp: candidates_product)
      then have "difference s t \<in> set K'" using sub' by blast
      then have "cells (difference s t) \<noteq> {||}" by (simp add: K'_def)
      then show False using c by (simp add: difference_def)
    qed
    ultimately show ?thesis by blast
  qed
  have "update_round ai' =
      (\<not> candidates (List.product K' K') \<subseteq> set K',
       ai'\<lparr>safes := safes ai', mines := mines ai',
           knowledge := filter ?ne (K' @ fst (subset_inference K' False))\<rparr>)"
    using sf' mn' K'
    by (simp add: update_round_eq Let_def map_strip_none K'_def [symmetric])
  moreover have "ai'\<lparr>safes := safes ai', mines := mines ai', knowledge := K'\<rparr> = ai'"
    using K' by (simp add: K'_def)
  ultimately show ?thesis using flag' K' by (simp add: fe fk K'_def [symmetric])
qed

lemma second_call:
  assumes ret: "update_knowledge ai = Some ai'"
  shows "update_knowledge ai' = (if cells_fix_count (knowledge ai') then Some ai' else None)"
proof -
  from update_knowledge_invariant [where I = "\<lambda>_. True", OF ret]
  obtain a where "update_round a = (False, ai')" by auto
  then have r: "update_round ai' = (\<not> cells_fix_count (knowledge ai'), ai')"
    by (rule last_round_again)
  show ?thesis
  proof (cases "cells_fix_count (knowledge ai')")
    case True
    with r have "update_round ai' = (False, ai')" by simp
    then have "update_knowledge ai' = Some ai'" by (subst update_knowledge.simps) simp
    with True show ?thesis by simp
  next
    case False
    with r have "update_round ai' = (True, ai')" by simp
    then have "update_knowledge ai' = None" by (rule update_knowledge_diverges)
    with False show ?thesis by simp
  qed
qed

text \<open>
  C5, as amended. A second call of \<open>update_knowledge\<close>, on the state that a completed
  call has left, changes nothing: it returns that same state when no two stored
  sentences have the same cells and different counts, and otherwise it never returns.
  It does return whenever the knowledge base was consistent with a placement of mines
  before the first call, as it is under the driver's contract.
\<close>

theorem second_propagation_changes_nothing:
  assumes "update_knowledge ai = Some ai'"
  shows "update_knowledge ai' = (if cells_fix_count (knowledge ai') then Some ai' else None)
         \<and> (consistent B ai \<longrightarrow> update_knowledge ai' = Some ai')"
proof
  show 1: "update_knowledge ai' = (if cells_fix_count (knowledge ai') then Some ai' else None)"
    using assms by (rule second_call)
  show "consistent B ai \<longrightarrow> update_knowledge ai' = Some ai'"
  proof
    assume "consistent B ai"
    with assms have "consistent B ai'" by (rule consistent_update_knowledge)
    then have "cells_fix_count (knowledge ai')" by (rule consistent_fix_count)
    with 1 show "update_knowledge ai' = Some ai'" by simp
  qed
qed

text \<open>The state left by two probes of a 2 by 3 board with one mine.\<close>

theorem second_propagation_witness:
  "consistent {|(1, 0)|} settled \<and> cells_fix_count (knowledge settled)
   \<and> update_knowledge settled = Some settled"
proof -
  have 1: "update_knowledge settled = Some settled" by code_simp
  have 2: "cells_fix_count (knowledge settled)" by code_simp
  have 3: "consistent {|(1, 0)|} settled" by code_simp
  from second_propagation_changes_nothing [OF 1, of "{|(1, 0)|}"] 2 3 show ?thesis by simp
qed

text \<open>
  The claim as it stands fails when the observations contradict each other. On a
  1 by 4 grid the observations \<open>(0, 1)\<close> with count 3, \<open>(0, 3)\<close> with count 5 and
  \<open>(0, 0)\<close> with count 2 all return; the last call leaves \<open>({(0, 2)}, 3)\<close> and
  \<open>({(0, 2)}, 5)\<close>, because the two empty sentences that their difference yields were
  in the knowledge during its only round. In a second call they are not: every round
  derives them anew, sets the flag and drops them, and the call never returns.
\<close>

theorem second_propagation_counterexample:
  "add_knowledge (MinesweeperAI 1 4) (0, 1) 3 = Some first_seen
   \<and> add_knowledge first_seen (0, 3) 5 = Some second_seen
   \<and> add_knowledge second_seen (0, 0) 2 = Some stuck
   \<and> update_knowledge stuck = None"
proof -
  have 1: "add_knowledge (MinesweeperAI 1 4) (0, 1) 3 = Some first_seen" by code_simp
  have 2: "add_knowledge first_seen (0, 3) 5 = Some second_seen" by code_simp
  have 3: "add_knowledge second_seen (0, 0) 2 = Some stuck" by code_simp
  have "update_round stuck = (True, stuck)" by code_simp
  then have 4: "update_knowledge stuck = None" by (rule update_knowledge_diverges)
  from 1 2 3 4 show ?thesis by simp
qed

end
